theory Spec2Isabelle
  imports Complex_Main "HOL-Library.Word"
begin

unbundle bit_operations_syntax

section \<open>Script segments and the segment optimizer\<close>

text \<open>
  \<^verbatim>\<open>ScriptSegment\<close> of \<^verbatim>\<open>types.ts\<close>: a speaker name and a text. A JavaScript string is a
  sequence of UTF-16 code units and \<^verbatim>\<open>.length\<close> counts them; one element of the list
  below stands for one code unit.
\<close>

record ScriptSegment =
  speaker :: string
  text_s :: string

definition MAX_CHAR_LIMIT :: nat where
  "MAX_CHAR_LIMIT = 800"

text \<open>
  The \<^verbatim>\<open>for\<close> loop of \<^verbatim>\<open>optimizeScript\<close>: \<open>current\<close> is the accumulator segment,
  \<open>optimized\<close> the output array built by \<^verbatim>\<open>push\<close>, and the third argument is what is left
  of \<^verbatim>\<open>script\<close> from index \<open>i\<close> on.
\<close>

fun optimizeLoop :: "ScriptSegment \<Rightarrow> ScriptSegment list \<Rightarrow> ScriptSegment list \<Rightarrow> ScriptSegment list" where
  "optimizeLoop current optimized [] = optimized @ [current]"
| "optimizeLoop current optimized (next # rest) =
     (if speaker next = speaker current \<and> length (text_s current) + length (text_s next) < MAX_CHAR_LIMIT
      then optimizeLoop (current\<lparr>text_s := text_s current @ '' '' @ text_s next\<rparr>) optimized rest
      else optimizeLoop next (optimized @ [current]) rest)"

definition optimizeScript :: "ScriptSegment list \<Rightarrow> ScriptSegment list" where
  "optimizeScript script =
     (case script of
        [] \<Rightarrow> []
      | first # rest \<Rightarrow> optimizeLoop first [] rest)"

section \<open>The credential pool\<close>

text \<open>
  \<^verbatim>\<open>KeyManager\<close> of \<^verbatim>\<open>keyManager.ts\<close>. Reading \<^verbatim>\<open>this.keys[index]\<close> outside the array gives
  \<^verbatim>\<open>undefined\<close>, which the two maps accept as a key like any string, so a key reference is
  either \<open>Undefined\<close> or a string. Timestamps are the milliseconds of \<^verbatim>\<open>Date.now()\<close>; every
  operation takes the clock reading \<open>now\<close> as an argument, one reading for the whole
  synchronous call.
\<close>

datatype key_ref = Undefined | Key string

record KeyManager =
  keys :: "string list"
  currentIndex :: nat
  jailedUntil :: "key_ref \<rightharpoonup> int"
  requestCounts :: "key_ref \<rightharpoonup> nat"
  lastResetTime :: int

definition MAX_RPM :: nat where
  "MAX_RPM = 12"

definition RESET_INTERVAL :: int where
  "RESET_INTERVAL = 60000"

definition keyAt :: "KeyManager \<Rightarrow> nat \<Rightarrow> key_ref" where
  "keyAt km index = (if index < length (keys km) then Key (keys km ! index) else Undefined)"

text \<open>\<^verbatim>\<open>this.keys.forEach(key => this.requestCounts.set(key, 0))\<close>\<close>

definition resetCounts :: "string list \<Rightarrow> (key_ref \<rightharpoonup> nat) \<Rightarrow> (key_ref \<rightharpoonup> nat)" where
  "resetCounts ks counts = fold (\<lambda>key m. m(Key key \<mapsto> 0)) ks counts"

text \<open>
  The constructor after parsing: \<open>ks\<close> are the entries of the configuration string that
  are longer than 10 characters. The counters are set only when there is a key.
\<close>

definition newKeyManager :: "string list \<Rightarrow> int \<Rightarrow> KeyManager" where
  "newKeyManager ks now =
     \<lparr>keys = ks, currentIndex = 0, jailedUntil = Map.empty,
      requestCounts = (if length ks = 0 then Map.empty else resetCounts ks Map.empty),
      lastResetTime = now\<rparr>"

definition activeKeyCount :: "KeyManager \<Rightarrow> nat" where
  "activeKeyCount km = length (keys km)"

definition checkReset :: "KeyManager \<Rightarrow> int \<Rightarrow> KeyManager" where
  "checkReset km now =
     (if now - lastResetTime km > RESET_INTERVAL
      then km\<lparr>requestCounts := resetCounts (keys km) (requestCounts km), lastResetTime := now\<rparr>
      else km)"

text \<open>\<^verbatim>\<open>this.requestCounts.get(key) || 0\<close>\<close>

definition getCount :: "(key_ref \<rightharpoonup> nat) \<Rightarrow> key_ref \<Rightarrow> nat" where
  "getCount counts key = (case counts key of None \<Rightarrow> 0 | Some c \<Rightarrow> c)"

text \<open>\<^verbatim>\<open>isUsable\<close> calls \<^verbatim>\<open>checkReset\<close>, so it returns the pool as well as the answer.\<close>

definition isUsable :: "KeyManager \<Rightarrow> nat \<Rightarrow> int \<Rightarrow> bool \<times> KeyManager" where
  "isUsable km index now =
     (let key = keyAt km index;
          km1 = checkReset km now
      in if (case jailedUntil km1 key of None \<Rightarrow> False | Some until \<Rightarrow> until > now)
         then (False, km1)
         else (getCount (requestCounts km1) key < MAX_RPM, km1))"

definition incrementCount :: "KeyManager \<Rightarrow> key_ref \<Rightarrow> KeyManager" where
  "incrementCount km key =
     km\<lparr>requestCounts := (requestCounts km)(key \<mapsto> getCount (requestCounts km) key + 1)\<rparr>"

text \<open>
  The search loop of \<^verbatim>\<open>reserveKey\<close>, \<^verbatim>\<open>for (let i = 1; i < this.keys.length; i++)\<close>, over the
  offsets \<open>i\<close> still to try. The result \<open>None\<close> is \<^verbatim>\<open>null\<close>.
\<close>

fun reserveScan :: "KeyManager \<Rightarrow> int \<Rightarrow> nat list \<Rightarrow> key_ref option \<times> KeyManager" where
  "reserveScan km now [] = (None, km)"
| "reserveScan km now (i # rest) =
     (let ptr = (currentIndex km + i) mod length (keys km);
          (usable, km1) = isUsable km ptr now
      in if usable
         then (let km2 = km1\<lparr>currentIndex := ptr\<rparr>;
                   key = keyAt km2 ptr
               in (Some key, incrementCount km2 key))
         else reserveScan km1 now rest)"

definition reserveKey :: "KeyManager \<Rightarrow> int \<Rightarrow> key_ref option \<times> KeyManager" where
  "reserveKey km now =
     (let km0 = checkReset km now;
          (usable, km1) = isUsable km0 (currentIndex km0) now
      in if usable
         then (let key = keyAt km1 (currentIndex km1)
               in (Some key, incrementCount km1 key))
         else reserveScan km1 now [1..<length (keys km1)])"

text \<open>
  \<^verbatim>\<open>if (reserved) return reserved;\<close> tests truthiness: \<^verbatim>\<open>null\<close>, \<^verbatim>\<open>undefined\<close> and the empty
  string are falsy.
\<close>

fun truthyKey :: "key_ref option \<Rightarrow> bool" where
  "truthyKey None = False"
| "truthyKey (Some Undefined) = False"
| "truthyKey (Some (Key k)) = (k \<noteq> [])"

definition getWorkingKey :: "KeyManager \<Rightarrow> int \<Rightarrow> key_ref \<times> KeyManager" where
  "getWorkingKey km now =
     (let (reserved, km1) = reserveKey km now
      in case reserved of
           Some key \<Rightarrow> if truthyKey reserved then (key, km1) else (keyAt km1 (currentIndex km1), km1)
         | None \<Rightarrow> (keyAt km1 (currentIndex km1), km1))"

text \<open>The loop of \<^verbatim>\<open>jailCurrentKey\<close> that looks for the next usable key, and the rotation after it.\<close>

fun jailScan :: "KeyManager \<Rightarrow> int \<Rightarrow> nat list \<Rightarrow> KeyManager" where
  "jailScan km now [] = km\<lparr>currentIndex := (currentIndex km + 1) mod length (keys km)\<rparr>"
| "jailScan km now (i # rest) =
     (let ptr = (currentIndex km + i) mod length (keys km);
          (usable, km1) = isUsable km ptr now
      in if usable then km1\<lparr>currentIndex := ptr\<rparr> else jailScan km1 now rest)"

definition jailCurrentKey :: "KeyManager \<Rightarrow> int \<Rightarrow> int \<Rightarrow> KeyManager" where
  "jailCurrentKey km now durationMs =
     (if length (keys km) = 0 then km
      else (let key = keyAt km (currentIndex km);
                expiry = now + durationMs;
                km1 = km\<lparr>jailedUntil := (jailedUntil km)(key \<mapsto> expiry)\<rparr>
            in jailScan km1 now [1..<length (keys km1)]))"

text \<open>
  The usability test of \<^verbatim>\<open>isUsable\<close> as a predicate on a pool whose counters are up to date
  (not suspended beyond \<open>now\<close>, and under the request budget), and the result of a
  successful reservation at index \<open>ptr\<close>. Both only serve to state lemmas about the
  functions above.
\<close>

definition usableAt :: "KeyManager \<Rightarrow> key_ref \<Rightarrow> int \<Rightarrow> bool" where
  "usableAt km key now =
     ((case jailedUntil km key of None \<Rightarrow> True | Some until \<Rightarrow> until \<le> now) \<and>
      getCount (requestCounts km) key < MAX_RPM)"

definition reserved :: "KeyManager \<Rightarrow> nat \<Rightarrow> key_ref option \<times> KeyManager" where
  "reserved km ptr = (Some (keyAt km ptr), incrementCount (km\<lparr>currentIndex := ptr\<rparr>) (keyAt km ptr))"

section \<open>Casting scores\<close>

text \<open>
  The fields of \<^verbatim>\<open>Voice\<close>, \<^verbatim>\<open>VoiceAnalysis\<close> and \<^verbatim>\<open>CharacterProfile\<close> (\<^verbatim>\<open>types.ts\<close>) that the
  scoring reads. \<^verbatim>\<open>char.gender?.toLowerCase() || 'unknown'\<close> and \<^verbatim>\<open>char.description || ""\<close> allow
  a missing gender or description, so both are optional here.
\<close>

record VoiceAnalysis =
  gender :: string
  pitch :: string
  characteristics :: "string list"

record Voice =
  name :: string
  analysis :: VoiceAnalysis

record CharacterProfile =
  name_c :: string
  gender_c :: "string option"
  description :: "string option"

text \<open>
  \<^verbatim>\<open>String.prototype.toLowerCase\<close> on the code units 0 to 255, which a \<open>char\<close> can hold: the
  capital letters are the codes 65 to 90 (\<open>A\<close> to \<open>Z\<close>) and 192 to 222 without 215 (the
  accented capitals of Latin-1; 215 is the multiplication sign); they get bit 5 set, which
  adds 32. Every other code unit up to 255 is left as it is. Code units above 255 are
  outside this model.
\<close>

fun toLowerChar :: "char \<Rightarrow> char" where
  "toLowerChar (Char b0 b1 b2 b3 b4 b5 b6 b7) =
     (let n = (of_char (Char b0 b1 b2 b3 b4 b5 b6 b7) :: nat)
      in if (65 \<le> n \<and> n \<le> 90) \<or> (192 \<le> n \<and> n \<le> 222 \<and> n \<noteq> 215)
         then Char b0 b1 b2 b3 b4 True b6 b7
         else Char b0 b1 b2 b3 b4 b5 b6 b7)"

definition toLowerCase :: "string \<Rightarrow> string" where
  "toLowerCase s = map toLowerChar s"

text \<open>\<^verbatim>\<open>String.prototype.includes\<close>: the second string occurs somewhere in the first.\<close>

fun includes_s :: "string \<Rightarrow> string \<Rightarrow> bool" where
  "includes_s [] sub = (sub = [])"
| "includes_s (c # cs) sub = (take (length sub) (c # cs) = sub \<or> includes_s cs sub)"

text \<open>The block \<^verbatim>\<open>// Gender Match\<close> of the scoring callback in \<^verbatim>\<open>performSmartCasting\<close>.\<close>

definition genderMatch :: "string option \<Rightarrow> string \<Rightarrow> real" where
  "genderMatch charGenderField voiceGenderField =
     (let charGender = (case charGenderField of
                          None \<Rightarrow> ''unknown''
                        | Some g \<Rightarrow> if toLowerCase g = [] then ''unknown'' else toLowerCase g);
          voiceGender = toLowerCase voiceGenderField
      in if charGender \<noteq> ''unknown'' \<and> charGender \<noteq> ''n/a''
         then (if includes_s charGender ''female'' \<and> voiceGender = ''male'' then - 100
               else if includes_s charGender ''male'' \<and> voiceGender = ''female'' then - 100
               else if charGender = voiceGender then 20
               else 0)
         else 0)"

text \<open>The block \<^verbatim>\<open>// Description Match\<close>.\<close>

definition descriptionMatch :: "string option \<Rightarrow> VoiceAnalysis \<Rightarrow> real" where
  "descriptionMatch descriptionField va =
     (let desc = toLowerCase (case descriptionField of None \<Rightarrow> [] | Some d \<Rightarrow> d);
          chars = map toLowerCase (characteristics va);
          pitchL = toLowerCase (pitch va)
      in if includes_s desc ''old'' \<or> includes_s desc ''elderly''
         then (if ''mature'' \<in> set chars \<or> ''deep'' \<in> set chars then 10 else 0)
         else if includes_s desc ''young'' \<or> includes_s desc ''child''
         then (if ''youthful'' \<in> set chars then 10 else 0) + (if includes_s pitchL ''high'' then 5 else 0)
         else 0)"

text \<open>
  The score of one voice for one character: the two blocks, the penalty for a voice that is
  already used, and the value \<open>rnd\<close> that \<^verbatim>\<open>Math.random()\<close> returned (\<open>0 \<le> rnd < 1\<close>).
\<close>

definition scoreVoice :: "CharacterProfile \<Rightarrow> string set \<Rightarrow> real \<Rightarrow> Voice \<Rightarrow> real" where
  "scoreVoice char usedVoices rnd voice =
     genderMatch (gender_c char) (gender (analysis voice))
     + descriptionMatch (description char) (analysis voice)
     + (if name voice \<in> usedVoices then - 5 else 0)
     + rnd"

section \<open>Audio buffers\<close>

text \<open>
  An \<^verbatim>\<open>AudioBuffer\<close> of the Web Audio API with the properties the code reads. Samples are
  32-bit floats; every value that occurs here (a 16-bit integer divided by 32768, or zero)
  is represented exactly, so a sample is a real number. \<^verbatim>\<open>NaN\<close> samples are not modelled.
\<close>

datatype audio_error = NotSupportedError | RangeError | IndexSizeError | NoAudioGenerated

record AudioBuffer =
  numberOfChannels :: nat
  length_b :: nat
  sampleRate :: nat
  channelData :: "real list list"

text \<open>What every buffer made by \<^verbatim>\<open>createBuffer\<close> satisfies.\<close>

definition wfAudioBuffer :: "AudioBuffer \<Rightarrow> bool" where
  "wfAudioBuffer b =
     (0 < numberOfChannels b \<and> 0 < length_b b \<and>
      length (channelData b) = numberOfChannels b \<and>
      list_all (\<lambda>c. length c = length_b b) (channelData b))"

text \<open>
  \<^verbatim>\<open>ctx.createBuffer(numberOfChannels, length, sampleRate)\<close>: a silent buffer. The Web Audio
  API raises \<^verbatim>\<open>NotSupportedError\<close> when the channel count or the length is zero; the limits
  on the sample rate depend on the browser and are not modelled.
\<close>

definition createBuffer :: "nat \<Rightarrow> nat \<Rightarrow> nat \<Rightarrow> audio_error + AudioBuffer" where
  "createBuffer nChannels len rate =
     (if nChannels = 0 \<or> len = 0 then Inl NotSupportedError
      else Inr \<lparr>numberOfChannels = nChannels, length_b = len, sampleRate = rate,
                channelData = replicate nChannels (replicate len 0)\<rparr>)"

definition getChannelData :: "AudioBuffer \<Rightarrow> nat \<Rightarrow> audio_error + real list" where
  "getChannelData b channel =
     (if channel < numberOfChannels b \<and> channel < length (channelData b)
      then Inr (channelData b ! channel) else Inl IndexSizeError)"

text \<open>\<^verbatim>\<open>target.set(source, offset)\<close> on typed arrays: \<^verbatim>\<open>RangeError\<close> when the source does not fit.\<close>

definition typedArraySet :: "real list \<Rightarrow> real list \<Rightarrow> nat \<Rightarrow> audio_error + real list" where
  "typedArraySet target source offset =
     (if offset + length source > length target then Inl RangeError
      else Inr (take offset target @ source @ drop (offset + length source) target))"

text \<open>The inner loop of \<^verbatim>\<open>concatenateAudioBuffers\<close>: \<^verbatim>\<open>for (const buffer of validBuffers)\<close>.\<close>

fun copyChannel :: "nat \<Rightarrow> AudioBuffer list \<Rightarrow> nat \<Rightarrow> real list \<Rightarrow> audio_error + real list" where
  "copyChannel channel [] offset resultData = Inr resultData"
| "copyChannel channel (buffer # rest) offset resultData =
     (case getChannelData buffer channel of
        Inl e \<Rightarrow> Inl e
      | Inr source \<Rightarrow>
          (case typedArraySet resultData source offset of
             Inl e \<Rightarrow> Inl e
           | Inr resultData' \<Rightarrow> copyChannel channel rest (offset + length_b buffer) resultData'))"

text \<open>The outer loop, over the channels still to fill.\<close>

fun fillChannels :: "AudioBuffer \<Rightarrow> AudioBuffer list \<Rightarrow> nat list \<Rightarrow> audio_error + AudioBuffer" where
  "fillChannels result validBuffers [] = Inr result"
| "fillChannels result validBuffers (channel # rest) =
     (case getChannelData result channel of
        Inl e \<Rightarrow> Inl e
      | Inr resultData \<Rightarrow>
          (case copyChannel channel validBuffers 0 resultData of
             Inl e \<Rightarrow> Inl e
           | Inr filled \<Rightarrow>
               fillChannels (result\<lparr>channelData := (channelData result)[channel := filled]\<rparr>)
                 validBuffers rest))"

text \<open>
  \<^verbatim>\<open>concatenateAudioBuffers(ctx, buffers)\<close>. An entry \<open>None\<close> of the array is \<^verbatim>\<open>null\<close>; the filter
  \<^verbatim>\<open>b && b.length > 0\<close> drops it.
\<close>

definition validBuffers_of :: "AudioBuffer option list \<Rightarrow> AudioBuffer list" where
  "validBuffers_of buffers = [b. Some b \<leftarrow> buffers, length_b b > 0]"

definition concatenateAudioBuffers :: "AudioBuffer option list \<Rightarrow> audio_error + AudioBuffer" where
  "concatenateAudioBuffers buffers =
     (if length buffers = 0 then createBuffer 1 1 24000
      else
        (let validBuffers = validBuffers_of buffers
         in if length validBuffers = 0 then createBuffer 1 1 24000
            else
              (let totalLength = foldl (\<lambda>acc b. acc + length_b b) 0 validBuffers;
                   nChannels = numberOfChannels (hd validBuffers)
               in if totalLength = 0 then createBuffer 1 1 24000
                  else
                    (case createBuffer nChannels totalLength (sampleRate (hd validBuffers)) of
                       Inl e \<Rightarrow> Inl e
                     | Inr result \<Rightarrow> fillChannels result validBuffers [0..<nChannels]))))"

section \<open>Raw PCM decoding and WAV encoding\<close>

type_synonym byte = "8 word"

text \<open>
  \<^verbatim>\<open>new Int16Array(data.buffer)\<close>: the bytes read in pairs as little-endian signed 16-bit
  integers. An odd number of bytes raises \<^verbatim>\<open>RangeError\<close>, tested by the caller below.
\<close>

fun int16Array :: "byte list \<Rightarrow> int list" where
  "int16Array (lo # hi # rest) =
     (let u = unat lo + 256 * unat hi
      in (if u < 32768 then int u else int u - 65536) # int16Array rest)"
| "int16Array _ = []"

text \<open>
  \<^verbatim>\<open>decodeAudioData(data, ctx, sampleRate, numChannels)\<close>. The frame count
  \<^verbatim>\<open>dataInt16.length / numChannels\<close> is truncated to an integer when it is passed to
  \<^verbatim>\<open>createBuffer\<close>; a write beyond the created channel is ignored, so the loop fills the
  frames \<open>i < frameCount\<close>.
\<close>

definition decodeAudioData :: "byte list \<Rightarrow> nat \<Rightarrow> nat \<Rightarrow> audio_error + AudioBuffer" where
  "decodeAudioData data rate numChannels =
     (if odd (length data) then Inl RangeError
      else
        (let dataInt16 = int16Array data;
             frameCount = length dataInt16 div numChannels
         in case createBuffer numChannels frameCount rate of
              Inl e \<Rightarrow> Inl e
            | Inr buffer \<Rightarrow>
                Inr (buffer\<lparr>channelData :=
                       map (\<lambda>channel.
                              map (\<lambda>i. real_of_int (dataInt16 ! (i * numChannels + channel)) / 32768)
                                [0..<frameCount])
                         [0..<numChannels]\<rparr>)))"

text \<open>
  \<^verbatim>\<open>view.setUint32(offset, data, true)\<close> and \<^verbatim>\<open>view.setUint16(offset, data, true)\<close>: the value
  modulo \<open>2^32\<close> or \<open>2^16\<close>, least significant byte first.
\<close>

definition setUint32 :: "nat \<Rightarrow> byte list" where
  "setUint32 d =
     [word_of_nat (d mod 256), word_of_nat (d div 256 mod 256),
      word_of_nat (d div 65536 mod 256), word_of_nat (d div 16777216 mod 256)]"

definition setUint16 :: "nat \<Rightarrow> byte list" where
  "setUint16 d = [word_of_nat (d mod 256), word_of_nat (d div 256 mod 256)]"

text \<open>\<^verbatim>\<open>view.setInt16(offset, sample, true)\<close> for an integer \<open>sample\<close>: two's complement.\<close>

definition setInt16 :: "int \<Rightarrow> byte list" where
  "setInt16 v = setUint16 (nat (v mod 65536))"

text \<open>
  The clamping and scaling of one sample:
  \<^verbatim>\<open>sample = Math.max(-1, Math.min(1, x)); sample = (0.5 + sample < 0 ? sample * 32768 : sample * 32767) | 0\<close>.
  \<^verbatim>\<open>| 0\<close> truncates towards zero; the products lie within the 32-bit range.
\<close>

definition truncToInt :: "real \<Rightarrow> int" where
  "truncToInt x = (if x < 0 then - \<lfloor>- x\<rfloor> else \<lfloor>x\<rfloor>)"

definition scaleSample :: "real \<Rightarrow> int" where
  "scaleSample x =
     (let sample = max (- 1) (min 1 x)
      in truncToInt (if 0.5 + sample < 0 then sample * 32768 else sample * 32767))"

text \<open>
  The body of \<^verbatim>\<open>while (pos < buffer.length)\<close>: the frame \<open>pos\<close> of every channel, interleaved.
  Reading a channel beyond its end gives \<^verbatim>\<open>undefined\<close>, which the arithmetic turns into 0.
\<close>

definition frameBytes :: "real list list \<Rightarrow> nat \<Rightarrow> nat \<Rightarrow> byte list" where
  "frameBytes channels numOfChan pos =
     concat (map (\<lambda>i. setInt16 (if pos < length (channels ! i) then scaleSample (channels ! i ! pos) else 0))
               [0..<numOfChan])"

text \<open>
  \<^verbatim>\<open>bufferToWav(buffer)\<close>. The variable \<^verbatim>\<open>offset\<close> is the write position of \<^verbatim>\<open>setUint16\<close>,
  \<^verbatim>\<open>setUint32\<close> and of the sample loop; the writes are consecutive from 0 and end exactly at
  \<open>length\<close>, so the file is the concatenation of what is written. The variable \<^verbatim>\<open>pos\<close> is
  only advanced by the sample loop: it is still 0 when the header is written, and the data
  chunk length \<^verbatim>\<open>length - pos - 4\<close> is computed with that value.
\<close>

definition wavHeader :: "AudioBuffer \<Rightarrow> byte list" where
  "wavHeader buffer =
     (let numOfChan = numberOfChannels buffer;
          len = length_b buffer * numOfChan * 2 + 44;
          pos = 0
      in setUint32 0x46464952
         @ setUint32 (len - 8)
         @ setUint32 0x45564157
         @ setUint32 0x20746d66
         @ setUint32 16
         @ setUint16 1
         @ setUint16 numOfChan
         @ setUint32 (sampleRate buffer)
         @ setUint32 (sampleRate buffer * 2 * numOfChan)
         @ setUint16 (numOfChan * 2)
         @ setUint16 16
         @ setUint32 0x61746164
         @ setUint32 (len - pos - 4))"

definition bufferToWav :: "AudioBuffer \<Rightarrow> audio_error + byte list" where
  "bufferToWav buffer =
     (let numOfChan = numberOfChannels buffer
      in if list_all (\<lambda>i. i < length (channelData buffer)) [0..<numOfChan]
         then Inr (wavHeader buffer
                   @ concat (map (frameBytes (channelData buffer) numOfChan) [0..<length_b buffer]))
         else Inl IndexSizeError)"

text \<open>
  Reading a RIFF/WAVE header back (\<^verbatim>\<open>DataView.getUint16\<close> and \<^verbatim>\<open>getUint32\<close>, little-endian):
  the channel count at byte 22, the sample rate at byte 24, the block alignment at byte 32
  and the length of the data chunk at byte 40. The number of frames a reader finds is the
  data length divided by the block alignment.
\<close>

definition getUint16 :: "byte list \<Rightarrow> nat \<Rightarrow> nat" where
  "getUint16 bytes offset = unat (bytes ! offset) + 256 * unat (bytes ! (offset + 1))"

definition getUint32 :: "byte list \<Rightarrow> nat \<Rightarrow> nat" where
  "getUint32 bytes offset =
     unat (bytes ! offset) + 256 * unat (bytes ! (offset + 1))
     + 65536 * unat (bytes ! (offset + 2)) + 16777216 * unat (bytes ! (offset + 3))"

definition wavChannels :: "byte list \<Rightarrow> nat" where
  "wavChannels bytes = getUint16 bytes 22"

definition wavSampleRate :: "byte list \<Rightarrow> nat" where
  "wavSampleRate bytes = getUint32 bytes 24"

definition wavFrames :: "byte list \<Rightarrow> nat" where
  "wavFrames bytes = getUint32 bytes 40 div getUint16 bytes 32"

section \<open>The generation run\<close>

text \<open>
  The shared state of one call of \<^verbatim>\<open>handleGenerate\<close>: the liveness flag \<^verbatim>\<open>isMountedRef.current\<close>,
  the job queue, the counter \<^verbatim>\<open>activeWorkers\<close>, the array \<^verbatim>\<open>orderedBuffers\<close> (an entry
  \<open>None\<close> is \<^verbatim>\<open>null\<close>), the counter \<^verbatim>\<open>completedCount\<close> and the process-wide key manager. A job
  is \<^verbatim>\<open>{segment, index}\<close>. The calls of \<^verbatim>\<open>processItem\<close> that have not settled yet are kept in
  \<open>pending\<close>, each with its job, its \<^verbatim>\<open>apiKey\<close> and whether it waits for the synthesis call
  (\<open>True\<close>) or returned on its first line (\<open>False\<close>); \<open>phase\<close> is the place \<^verbatim>\<open>processQueue\<close>
  has reached.
\<close>

type_synonym job = "ScriptSegment \<times> nat"

datatype phase = NotStarted | MainLoop | Stragglers | Finished

record GenState =
  isMounted :: bool
  queue :: "job list"
  activeWorkers :: nat
  pending :: "(job \<times> key_ref \<times> bool) list"
  orderedBuffers :: "AudioBuffer option list"
  completedCount :: nat
  keyManager :: KeyManager
  phase :: phase

text \<open>
  What the synthesis call of one job ends with: a response with audio data (the bytes after
  \<^verbatim>\<open>decodeBase64\<close>; the empty list stands for an empty string, which is falsy), a response
  without audio data, or a thrown error with its \<^verbatim>\<open>status\<close> and \<^verbatim>\<open>message\<close>.
\<close>

datatype api_result =
    AudioData "byte list"
  | NoAudioData
  | ApiError "nat option" "string option"

definition MAX_CONCURRENCY :: "nat \<Rightarrow> nat" where
  "MAX_CONCURRENCY keyCount = min 3 (keyCount * 2)"

text \<open>
  The state after \<^verbatim>\<open>optimizeScript\<close>, the allocation of \<^verbatim>\<open>orderedBuffers\<close> and the creation of
  the queue.
\<close>

definition initGenState :: "ScriptSegment list \<Rightarrow> KeyManager \<Rightarrow> GenState" where
  "initGenState script km =
     (let optimizedScript = optimizeScript script
      in \<lparr>isMounted = True,
          queue = zip optimizedScript [0..<length optimizedScript],
          activeWorkers = 0,
          pending = [],
          orderedBuffers = replicate (length optimizedScript) None,
          completedCount = 0,
          keyManager = km,
          phase = NotStarted\<rparr>)"

text \<open>\<^verbatim>\<open>err.status === 429 || err.message?.includes('429')\<close>\<close>

definition isRateLimit :: "nat option \<Rightarrow> string option \<Rightarrow> bool" where
  "isRateLimit status message =
     (status = Some 429 \<or> (case message of None \<Rightarrow> False | Some m \<Rightarrow> includes_s m ''429''))"

text \<open>
  The audio of one successful job: the decoded response followed by a quarter of a second
  of silence (\<^verbatim>\<open>createBuffer(1, 24000 * 0.25, 24000)\<close>).
\<close>

definition combinedChunk :: "byte list \<Rightarrow> audio_error + AudioBuffer" where
  "combinedChunk rawBytes =
     (case decodeAudioData rawBytes 24000 1 of
        Inl e \<Rightarrow> Inl e
      | Inr buffer \<Rightarrow>
          (case createBuffer 1 6000 24000 of
             Inl e \<Rightarrow> Inl e
           | Inr pauseBuffer \<Rightarrow> concatenateAudioBuffers [Some buffer, Some pauseBuffer]))"

text \<open>
  \<^verbatim>\<open>orderedBuffers[index] = combined\<close>. An assignment beyond the end of a JavaScript array
  extends it, leaving holes, which \<^verbatim>\<open>filter\<close> skips like \<^verbatim>\<open>null\<close> entries.
\<close>

definition storeAt :: "nat \<Rightarrow> AudioBuffer \<Rightarrow> AudioBuffer option list \<Rightarrow> AudioBuffer option list" where
  "storeAt index combined buffers =
     (if index < length buffers then buffers[index := Some combined]
      else buffers @ replicate (index - length buffers) None @ [Some combined])"

text \<open>
  \<^verbatim>\<open>processItem\<close> after \<^verbatim>\<open>await localAi.models.generateContent(...)\<close>: the rest of the \<^verbatim>\<open>try\<close>
  block and the \<^verbatim>\<open>catch\<close> block. An error thrown while decoding carries no status and a
  message of the browser without \<open>429\<close>; like \<^verbatim>\<open>No audio data returned\<close> it takes the branch
  that skips the job. The liveness flag is not read here.
\<close>

definition processItemResume :: "job \<Rightarrow> key_ref \<Rightarrow> api_result \<Rightarrow> int \<Rightarrow> GenState \<Rightarrow> GenState" where
  "processItemResume jb apiKey res now st =
     (case res of
        AudioData rawBytes \<Rightarrow>
          (if rawBytes = [] then st
           else (case combinedChunk rawBytes of
                   Inl e \<Rightarrow> st
                 | Inr combined \<Rightarrow>
                     st\<lparr>orderedBuffers := storeAt (snd jb) combined (orderedBuffers st),
                        completedCount := completedCount st + 1\<rparr>))
      | NoAudioData \<Rightarrow> st
      | ApiError status message \<Rightarrow>
          (if isRateLimit status message
           then st\<lparr>keyManager := jailCurrentKey (keyManager st) now 60000,
                   queue := jb # queue st\<rparr>
           else st))"

text \<open>
  The call \<^verbatim>\<open>processItem(job, key)\<close> up to its first \<^verbatim>\<open>await\<close>: with the liveness flag down it
  returns at once, otherwise it issues the synthesis call. Either way the promise settles
  later, and only then \<^verbatim>\<open>finally\<close> decrements \<^verbatim>\<open>activeWorkers\<close>.
\<close>

definition processItemStart :: "job \<Rightarrow> key_ref \<Rightarrow> GenState \<Rightarrow> GenState" where
  "processItemStart jb apiKey st = st\<lparr>pending := pending st @ [(jb, apiKey, isMounted st)]\<rparr>"

text \<open>
  One step of \<^verbatim>\<open>processQueue\<close> at time \<open>now\<close>: entering the function, one iteration of the
  main loop (a full pool of workers or no key makes it wait), or one test of the loop that
  waits for stragglers. \<open>C\<close> is \<^verbatim>\<open>MAX_CONCURRENCY\<close>.
\<close>

definition processQueueStep :: "nat \<Rightarrow> int \<Rightarrow> GenState \<Rightarrow> GenState" where
  "processQueueStep C now st =
     (case phase st of
        NotStarted \<Rightarrow> if \<not> isMounted st then st\<lparr>phase := Finished\<rparr> else st\<lparr>phase := MainLoop\<rparr>
      | MainLoop \<Rightarrow>
          (case queue st of
             [] \<Rightarrow> st\<lparr>phase := Stragglers\<rparr>
           | jb # rest \<Rightarrow>
               if activeWorkers st \<ge> C then st
               else (case reserveKey (keyManager st) now of
                       (key, km') \<Rightarrow>
                         if truthyKey key
                         then processItemStart jb (the key)
                                (st\<lparr>keyManager := km', queue := rest,
                                    activeWorkers := activeWorkers st + 1\<rparr>)
                         else st\<lparr>keyManager := km'\<rparr>))
      | Stragglers \<Rightarrow> if activeWorkers st > 0 then st else st\<lparr>phase := Finished\<rparr>
      | Finished \<Rightarrow> st)"

text \<open>
  The pending call number \<open>n\<close> settles at time \<open>now\<close> with the result \<open>res\<close> of its
  synthesis call: the continuation of \<^verbatim>\<open>processItem\<close> runs if the call was issued, then the
  \<^verbatim>\<open>finally\<close> callback.
\<close>

definition settle :: "nat \<Rightarrow> api_result \<Rightarrow> int \<Rightarrow> GenState \<Rightarrow> GenState" where
  "settle n res now st =
     (if n < length (pending st)
      then (case pending st ! n of
              (jb, apiKey, awaiting) \<Rightarrow>
                (let st1 = (if awaiting then processItemResume jb apiKey res now st else st)
                 in st1\<lparr>pending := take n (pending st1) @ drop (Suc n) (pending st1),
                        activeWorkers := activeWorkers st1 - 1\<rparr>))
      else st)"

text \<open>The events of a run, in the order in which the event loop executes them.\<close>

datatype event = Step int | Settle nat api_result int | Unmount

fun runEvent :: "nat \<Rightarrow> event \<Rightarrow> GenState \<Rightarrow> GenState" where
  "runEvent C (Step now) st = processQueueStep C now st"
| "runEvent C (Settle n res now) st = settle n res now st"
| "runEvent C Unmount st = st\<lparr>isMounted := False\<rparr>"

definition run :: "nat \<Rightarrow> event list \<Rightarrow> GenState \<Rightarrow> GenState" where
  "run C events st = fold (runEvent C) events st"

text \<open>
  The end of \<^verbatim>\<open>handleGenerate\<close>: the non-null entries of \<^verbatim>\<open>orderedBuffers\<close> are concatenated;
  with none the run fails with \<^verbatim>\<open>No audio generated\<close>.
\<close>

definition assembleFinal :: "AudioBuffer option list \<Rightarrow> audio_error + AudioBuffer" where
  "assembleFinal ordered =
     (let validBuffers = filter (\<lambda>b. b \<noteq> None) ordered
      in if length validBuffers = 0 then Inl NoAudioGenerated
         else concatenateAudioBuffers validBuffers)"

text \<open>
  The successful completions \<open>(job, apiKey, bytes)\<close> of a run, applied in the order in
  which they arrive.
\<close>

definition completeAll :: "(job \<times> key_ref \<times> byte list) list \<Rightarrow> int \<Rightarrow> GenState \<Rightarrow> GenState" where
  "completeAll completions now st =
     fold (\<lambda>(jb, apiKey, rawBytes). processItemResume jb apiKey (AudioData rawBytes) now) completions st"

text \<open>
  Example pools. \<open>jailedPool\<close>: a single key, suspended at time 5 for 60 seconds.
  \<open>exhaustedPool\<close>: a single key that has used its 12 requests of the window that started at
  time 0. \<open>allJailedPool\<close>: two keys, both suspended at time 5.
\<close>

definition jailedPool :: KeyManager where
  "jailedPool = jailCurrentKey (newKeyManager [''key-aaaaaaaaaa''] 0) 5 60000"

definition exhaustedPool :: KeyManager where
  "exhaustedPool =
     \<lparr>keys = [''key-aaaaaaaaaa''], currentIndex = 0, jailedUntil = Map.empty,
      requestCounts = [Key ''key-aaaaaaaaaa'' \<mapsto> 12], lastResetTime = 0\<rparr>"

text \<open>
  \<open>releasedPool\<close>: two keys, created at time 0. The first key was reserved once and its call
  was rate-limited at once, so it is suspended until 60000 and the round-robin index has
  moved to the second key, which has since used its 12 requests of the window.
\<close>

definition releasedPool :: KeyManager where
  "releasedPool =
     \<lparr>keys = [''key-aaaaaaaaaa'', ''key-bbbbbbbbbb''], currentIndex = 1,
      jailedUntil = [Key ''key-aaaaaaaaaa'' \<mapsto> 60000],
      requestCounts = [Key ''key-aaaaaaaaaa'' \<mapsto> 1, Key ''key-bbbbbbbbbb'' \<mapsto> 12],
      lastResetTime = 0\<rparr>"

definition allJailedPool :: KeyManager where
  "allJailedPool =
     jailCurrentKey (jailCurrentKey (newKeyManager [''key-aaaaaaaaaa'', ''key-bbbbbbbbbb''] 0) 5 60000) 5 60000"

text \<open>
  A script of five lines with alternating speakers, which \<^verbatim>\<open>optimizeScript\<close> leaves as it is,
  and a pool with a single key.
\<close>

definition fiveLineScript :: "ScriptSegment list" where
  "fiveLineScript =
     [\<lparr>speaker = ''A'', text_s = ''one''\<rparr>, \<lparr>speaker = ''B'', text_s = ''two''\<rparr>,
      \<lparr>speaker = ''A'', text_s = ''three''\<rparr>, \<lparr>speaker = ''B'', text_s = ''four''\<rparr>,
      \<lparr>speaker = ''A'', text_s = ''five''\<rparr>]"

definition singleKeyPool :: KeyManager where
  "singleKeyPool = newKeyManager [''key-aaaaaaaaaa''] 0"

section \<open>Notions used in the statements about a run\<close>

text \<open>
  The samples and the buffer that \<^verbatim>\<open>combinedChunk\<close> produces for a response with an even,
  positive number of bytes (lemma \<open>combinedChunk_chunkBuffer\<close> below): the 16-bit values
  scaled by \<open>1/32768\<close>, followed by 6000 silent frames.
\<close>

definition chunkSamples :: "byte list \<Rightarrow> real list" where
  "chunkSamples raw = map (\<lambda>v. real_of_int v / 32768) (int16Array raw) @ replicate 6000 0"

definition chunkBuffer :: "byte list \<Rightarrow> AudioBuffer" where
  "chunkBuffer raw =
     \<lparr>numberOfChannels = 1, length_b = length raw div 2 + 6000, sampleRate = 24000,
      channelData = [chunkSamples raw]\<rparr>"

text \<open>A response that decodes: not empty, and an even number of bytes.\<close>

definition okBytes :: "byte list \<Rightarrow> bool" where
  "okBytes raw = (raw \<noteq> [] \<and> even (length raw))"

text \<open>The job index and the response bytes of a completion \<open>(job, apiKey, bytes)\<close>.\<close>

fun compIndex :: "job \<times> key_ref \<times> byte list \<Rightarrow> nat" where
  "compIndex (jb, k, raw) = snd jb"

fun compBytes :: "job \<times> key_ref \<times> byte list \<Rightarrow> byte list" where
  "compBytes (jb, k, raw) = raw"

text \<open>
  Three completions of the five-line script, in the order of arrival (job 2 first) and in
  the order of the job indices.
\<close>

definition byArrival :: "(job \<times> key_ref \<times> byte list) list" where
  "byArrival =
     [((\<lparr>speaker = ''A'', text_s = ''three''\<rparr>, 2), Key ''key-aaaaaaaaaa'', [0, 64]),
      ((\<lparr>speaker = ''A'', text_s = ''one''\<rparr>, 0), Key ''key-aaaaaaaaaa'', [0, 32]),
      ((\<lparr>speaker = ''B'', text_s = ''two''\<rparr>, 1), Key ''key-aaaaaaaaaa'', [0, 16])]"

definition byIndex :: "(job \<times> key_ref \<times> byte list) list" where
  "byIndex =
     [((\<lparr>speaker = ''A'', text_s = ''one''\<rparr>, 0), Key ''key-aaaaaaaaaa'', [0, 32]),
      ((\<lparr>speaker = ''B'', text_s = ''two''\<rparr>, 1), Key ''key-aaaaaaaaaa'', [0, 16]),
      ((\<lparr>speaker = ''A'', text_s = ''three''\<rparr>, 2), Key ''key-aaaaaaaaaa'', [0, 64])]"

text \<open>
  A pool of two keys and a script of two lines. \<^verbatim>\<open>processQueue\<close> runs without interruption
  from its entry until it first waits, so both runs begin with its entry, the start of both
  jobs and the exit from the main loop on the empty queue. In \<open>rateLimitedTwice\<close> both
  synthesis calls then fail with status 429, at times 10 and 11. In \<open>lateCompletion\<close> (run
  with a single key) the component is unmounted while both calls are in flight, and then the
  call of the first job returns audio.
\<close>

definition twoKeyPool :: KeyManager where
  "twoKeyPool = newKeyManager [''key-aaaaaaaaaa'', ''key-bbbbbbbbbb''] 0"

definition twoLineScript :: "ScriptSegment list" where
  "twoLineScript = [\<lparr>speaker = ''A'', text_s = ''one''\<rparr>, \<lparr>speaker = ''B'', text_s = ''two''\<rparr>]"

definition rateLimitedTwice :: "event list" where
  "rateLimitedTwice =
     [Step 0, Step 1, Step 1, Step 1,
      Settle 0 (ApiError (Some 429) None) 10,
      Settle 0 (ApiError (Some 429) None) 11]"

definition lateCompletion :: "event list" where
  "lateCompletion = [Step 0, Step 1, Step 1, Step 1, Unmount, Settle 0 (AudioData [0, 64]) 5]"

section \<open>Properties of the segment optimizer\<close>

lemma optimizeLoop_merge:
  "speaker n = speaker current \<and> length (text_s current) + length (text_s n) < MAX_CHAR_LIMIT \<Longrightarrow>
   optimizeLoop current optimized (n # rest) =
   optimizeLoop (current\<lparr>text_s := text_s current @ '' '' @ text_s n\<rparr>) optimized rest"
  by simp

lemma optimizeLoop_flush:
  "\<not> (speaker n = speaker current \<and> length (text_s current) + length (text_s n) < MAX_CHAR_LIMIT) \<Longrightarrow>
   optimizeLoop current optimized (n # rest) = optimizeLoop n (optimized @ [current]) rest"
  by (simp only: optimizeLoop.simps if_False)

lemma optimizeLoop_append:
  "optimizeLoop current optimized rest = optimized @ optimizeLoop current [] rest"
proof (induction rest arbitrary: current optimized)
  case Nil
  show ?case by simp
next
  case (Cons n rest)
  show ?case
  proof (cases "speaker n = speaker current \<and> length (text_s current) + length (text_s n) < MAX_CHAR_LIMIT")
    case True
    show ?thesis
      unfolding optimizeLoop_merge [OF True]
      by (rule Cons.IH)
  next
    case False
    have "optimizeLoop n (optimized @ [current]) rest = (optimized @ [current]) @ optimizeLoop n [] rest"
      by (rule Cons.IH)
    moreover have "optimizeLoop n ([] @ [current]) rest = ([] @ [current]) @ optimizeLoop n [] rest"
      by (rule Cons.IH)
    ultimately show ?thesis
      unfolding optimizeLoop_flush [OF False] by simp
  qed
qed

lemma optimizeLoop_bound:
  "length (text_s current) \<le> MAX_CHAR_LIMIT \<Longrightarrow>
   \<forall>s \<in> set optimized. length (text_s s) \<le> MAX_CHAR_LIMIT \<Longrightarrow>
   \<forall>s \<in> set rest. length (text_s s) < MAX_CHAR_LIMIT \<Longrightarrow>
   \<forall>s \<in> set (optimizeLoop current optimized rest). length (text_s s) \<le> MAX_CHAR_LIMIT"
proof (induction rest arbitrary: current optimized)
  case Nil
  then show ?case by auto
next
  case (Cons n rest)
  have rest: "\<forall>s \<in> set rest. length (text_s s) < MAX_CHAR_LIMIT"
    using Cons.prems(3) by simp
  show ?case
  proof (cases "speaker n = speaker current \<and> length (text_s current) + length (text_s n) < MAX_CHAR_LIMIT")
    case True
    have "length (text_s (current\<lparr>text_s := text_s current @ '' '' @ text_s n\<rparr>)) \<le> MAX_CHAR_LIMIT"
      using True by simp
    then show ?thesis
      unfolding optimizeLoop_merge [OF True]
      using Cons.prems(2) rest by (rule Cons.IH)
  next
    case False
    have "length (text_s n) \<le> MAX_CHAR_LIMIT"
      using Cons.prems(3) by (simp add: less_imp_le)
    moreover have "\<forall>s \<in> set (optimized @ [current]). length (text_s s) \<le> MAX_CHAR_LIMIT"
      using Cons.prems(1,2) by auto
    ultimately show ?thesis
      unfolding optimizeLoop_flush [OF False]
      using rest by (rule Cons.IH)
  qed
qed

text \<open>
  Claim C7, as the code has it: two neighbouring segments of one speaker are merged, with a
  single space between the texts, exactly when the sum of the two text lengths (the
  separating space not counted) is below 800; otherwise the accumulator is emitted unchanged
  and the next segment starts a new one. When every input text is shorter than 800
  characters, every output text has at most 800 characters.
\<close>

theorem optimizeScript_cap:
  "(speaker b = speaker a \<and> length (text_s a) + length (text_s b) < 800 \<longrightarrow>
      optimizeScript (a # b # rest) = optimizeScript (a\<lparr>text_s := text_s a @ '' '' @ text_s b\<rparr> # rest)) \<and>
   (\<not> (speaker b = speaker a \<and> length (text_s a) + length (text_s b) < 800) \<longrightarrow>
      optimizeScript (a # b # rest) = a # optimizeScript (b # rest)) \<and>
   ((\<forall>s \<in> set script. length (text_s s) < 800) \<longrightarrow>
      (\<forall>s \<in> set (optimizeScript script). length (text_s s) \<le> 800))"
proof (intro conjI impI)
  assume "speaker b = speaker a \<and> length (text_s a) + length (text_s b) < 800"
  then show "optimizeScript (a # b # rest) = optimizeScript (a\<lparr>text_s := text_s a @ '' '' @ text_s b\<rparr> # rest)"
    by (simp add: optimizeScript_def MAX_CHAR_LIMIT_def)
next
  assume "\<not> (speaker b = speaker a \<and> length (text_s a) + length (text_s b) < 800)"
  then have "\<not> (speaker b = speaker a \<and> length (text_s a) + length (text_s b) < MAX_CHAR_LIMIT)"
    by (simp add: MAX_CHAR_LIMIT_def)
  then have "optimizeLoop a [] (b # rest) = optimizeLoop b ([] @ [a]) rest"
    by (rule optimizeLoop_flush)
  also have "\<dots> = ([] @ [a]) @ optimizeLoop b [] rest"
    by (rule optimizeLoop_append)
  finally show "optimizeScript (a # b # rest) = a # optimizeScript (b # rest)"
    by (simp add: optimizeScript_def)
next
  assume small: "\<forall>s \<in> set script. length (text_s s) < 800"
  show "\<forall>s \<in> set (optimizeScript script). length (text_s s) \<le> 800"
  proof (cases script)
    case Nil
    then show ?thesis by (simp add: optimizeScript_def)
  next
    case (Cons first rest')
    have "length (text_s first) \<le> MAX_CHAR_LIMIT"
      using small Cons by (simp add: MAX_CHAR_LIMIT_def less_imp_le)
    moreover have "\<forall>s \<in> set []. length (text_s s) \<le> MAX_CHAR_LIMIT"
      by simp
    moreover have "\<forall>s \<in> set rest'. length (text_s s) < MAX_CHAR_LIMIT"
      using small Cons by (simp add: MAX_CHAR_LIMIT_def)
    ultimately have "\<forall>s \<in> set (optimizeLoop first [] rest'). length (text_s s) \<le> MAX_CHAR_LIMIT"
      by (rule optimizeLoop_bound)
    then show ?thesis using Cons by (simp add: optimizeScript_def MAX_CHAR_LIMIT_def)
  qed
qed

theorem optimizeScript_cap_witness:
  "optimizeScript
     [\<lparr>speaker = ''A'', text_s = ''x''\<rparr>, \<lparr>speaker = ''A'', text_s = ''y''\<rparr>, \<lparr>speaker = ''B'', text_s = ''z''\<rparr>] =
     [\<lparr>speaker = ''A'', text_s = ''x y''\<rparr>, \<lparr>speaker = ''B'', text_s = ''z''\<rparr>] \<and>
   list_all (\<lambda>s. length (text_s s) < 800)
     [\<lparr>speaker = ''A'', text_s = ''x''\<rparr>, \<lparr>speaker = ''A'', text_s = ''y''\<rparr>, \<lparr>speaker = ''B'', text_s = ''z''\<rparr>] \<and>
   list_all (\<lambda>s. length (text_s s) \<le> 800)
     (optimizeScript
        [\<lparr>speaker = ''A'', text_s = ''x''\<rparr>, \<lparr>speaker = ''A'', text_s = ''y''\<rparr>, \<lparr>speaker = ''B'', text_s = ''z''\<rparr>])"
proof -
  let ?a = "\<lparr>speaker = ''A'', text_s = ''x''\<rparr>"
  let ?b = "\<lparr>speaker = ''A'', text_s = ''y''\<rparr>"
  let ?c = "\<lparr>speaker = ''B'', text_s = ''z''\<rparr>"
  let ?ab = "\<lparr>speaker = ''A'', text_s = ''x y''\<rparr>"
  have merge: "speaker ?b = speaker ?a \<and> length (text_s ?a) + length (text_s ?b) < 800"
    by simp
  have split: "\<not> (speaker ?c = speaker ?ab \<and> length (text_s ?ab) + length (text_s ?c) < 800)"
    by simp
  have small: "\<forall>s \<in> set [?a, ?b, ?c]. length (text_s s) < 800"
    by simp
  have "optimizeScript [?a, ?b, ?c] = optimizeScript (?a\<lparr>text_s := text_s ?a @ '' '' @ text_s ?b\<rparr> # [?c])"
    using optimizeScript_cap [of ?b ?a "[?c]" "[]"] merge by blast
  moreover have "optimizeScript [?ab, ?c] = ?ab # optimizeScript [?c]"
    using optimizeScript_cap [of ?c ?ab "[]" "[]"] split by blast
  moreover have "optimizeScript [?c] = [?c]"
    by (simp add: optimizeScript_def)
  ultimately have 1: "optimizeScript [?a, ?b, ?c] = [?ab, ?c]"
    by simp
  have "\<forall>s \<in> set (optimizeScript [?a, ?b, ?c]). length (text_s s) \<le> 800"
    using optimizeScript_cap [of ?b ?a "[?c]" "[?a, ?b, ?c]"] small by blast
  then have 3: "list_all (\<lambda>s. length (text_s s) \<le> 800) (optimizeScript [?a, ?b, ?c])"
    by (simp only: list_all_iff)
  have 2: "list_all (\<lambda>s. length (text_s s) < 800) [?a, ?b, ?c]"
    by simp
  show ?thesis using 1 2 3 by blast
qed

text \<open>
  The claim as stated promises output texts strictly shorter than 800 characters. Two
  segments of one speaker with 400 and 399 characters pass the test \<open>400 + 399 < 800\<close> and
  are joined with the separating space into a text of exactly 800 characters.
\<close>

theorem optimizeScript_cap_counterexample:
  "\<not> ((\<forall>s \<in> set [\<lparr>speaker = ''A'', text_s = replicate 400 CHR ''x''\<rparr>,
                   \<lparr>speaker = ''A'', text_s = replicate 399 CHR ''y''\<rparr>]. length (text_s s) < 800) \<longrightarrow>
       (\<forall>s \<in> set (optimizeScript
                   [\<lparr>speaker = ''A'', text_s = replicate 400 CHR ''x''\<rparr>,
                    \<lparr>speaker = ''A'', text_s = replicate 399 CHR ''y''\<rparr>]). length (text_s s) < 800))"
  by (simp add: optimizeScript_def MAX_CHAR_LIMIT_def)

section \<open>Properties of the credential pool\<close>


lemma checkReset_keys [simp]: "keys (checkReset km now) = keys km"
  by (simp add: checkReset_def)

lemma checkReset_currentIndex [simp]: "currentIndex (checkReset km now) = currentIndex km"
  by (simp add: checkReset_def)

lemma checkReset_jailedUntil [simp]: "jailedUntil (checkReset km now) = jailedUntil km"
  by (simp add: checkReset_def)

lemma checkReset_idem [simp]: "checkReset (checkReset km now) now = checkReset km now"
  by (simp add: checkReset_def RESET_INTERVAL_def)

lemma keyAt_checkReset [simp]: "keyAt (checkReset km now) i = keyAt km i"
  by (simp add: keyAt_def)

lemma isUsable_eq:
  "isUsable km i now = (usableAt (checkReset km now) (keyAt km i) now, checkReset km now)"
  by (auto simp: isUsable_def usableAt_def Let_def split: option.splits)

lemma reserveScan_eq:
  "checkReset km now = km \<Longrightarrow>
   reserveScan km now offs =
     (case find (\<lambda>i. usableAt km (keyAt km ((currentIndex km + i) mod length (keys km))) now) offs of
        None \<Rightarrow> (None, km)
      | Some i \<Rightarrow> reserved km ((currentIndex km + i) mod length (keys km)))"
  by (induction offs) (simp_all add: isUsable_eq Let_def reserved_def keyAt_def)

lemma reserveKey_eq:
  "reserveKey km now =
     (let km0 = checkReset km now in
      if usableAt km0 (keyAt km0 (currentIndex km0)) now
      then (Some (keyAt km0 (currentIndex km0)), incrementCount km0 (keyAt km0 (currentIndex km0)))
      else (case find (\<lambda>i. usableAt km0 (keyAt km0 ((currentIndex km0 + i) mod length (keys km0))) now) [1..<length (keys km0)] of
        None \<Rightarrow> (None, km0)
      | Some i \<Rightarrow> reserved km0 ((currentIndex km0 + i) mod length (keys km0))))"
  by (simp add: reserveKey_def isUsable_eq Let_def reserveScan_eq reserved_def keyAt_def)

lemma find_SomeD: "find P xs = Some x \<Longrightarrow> x \<in> set xs \<and> P x"
  by (induction xs) (auto split: if_splits)

lemma find_NoneD: "find P xs = None \<Longrightarrow> x \<in> set xs \<Longrightarrow> \<not> P x"
  by (induction xs) (auto split: if_splits)

lemma reserveKey_Some_usable:
  "fst (reserveKey km now) = Some key \<Longrightarrow> usableAt (checkReset km now) key now"
  by (auto simp: reserveKey_eq Let_def reserved_def split: if_splits option.splits dest: find_SomeD)

lemma reserveKey_None_iff:
  "fst (reserveKey km now) = None \<longleftrightarrow>
     \<not> usableAt (checkReset km now) (keyAt km (currentIndex km)) now \<and>
     (\<forall>i. 1 \<le> i \<and> i < length (keys km) \<longrightarrow>
        \<not> usableAt (checkReset km now) (keyAt km ((currentIndex km + i) mod length (keys km))) now)"
proof -
  let ?P = "\<lambda>i. usableAt (checkReset km now) (keyAt km ((currentIndex km + i) mod length (keys km))) now"
  have "find ?P [1..<length (keys km)] = None \<longleftrightarrow> (\<forall>i. 1 \<le> i \<and> i < length (keys km) \<longrightarrow> \<not> ?P i)"
    by (auto simp: find_None_iff)
  then show ?thesis
    by (auto simp: reserveKey_eq Let_def reserved_def split: option.splits)
qed

lemma reserveKey_None_state:
  "fst (reserveKey km now) = None \<Longrightarrow> snd (reserveKey km now) = checkReset km now"
  by (auto simp: reserveKey_eq Let_def reserved_def split: option.splits if_splits)

lemma reserveKey_keys [simp]: "keys (snd (reserveKey km now)) = keys km"
  by (auto simp: reserveKey_eq Let_def reserved_def incrementCount_def split: option.splits if_splits)

lemma reserveKey_Some_index:
  assumes "fst (reserveKey km now) = Some key"
  shows "key = keyAt km (currentIndex (snd (reserveKey km now)))"
    and "currentIndex (snd (reserveKey km now)) = currentIndex km \<or>
         currentIndex (snd (reserveKey km now)) < length (keys km)"
proof -
  let ?km0 = "checkReset km now"
  let ?P = "\<lambda>i. usableAt ?km0 (keyAt km ((currentIndex km + i) mod length (keys km))) now"
  show "key = keyAt km (currentIndex (snd (reserveKey km now)))"
    using assms
    by (auto simp: reserveKey_eq Let_def reserved_def incrementCount_def split: option.splits if_splits)
  show "currentIndex (snd (reserveKey km now)) = currentIndex km \<or>
         currentIndex (snd (reserveKey km now)) < length (keys km)"
  proof (cases "usableAt ?km0 (keyAt km (currentIndex km)) now")
    case True
    then show ?thesis by (simp add: reserveKey_eq Let_def incrementCount_def)
  next
    case False
    then obtain i where f: "find ?P [1..<length (keys km)] = Some i"
      using assms by (auto simp: reserveKey_eq Let_def split: option.splits)
    then have "i \<in> set [1..<length (keys km)]" by (auto dest: find_SomeD)
    then have "0 < length (keys km)" by auto
    then have "(currentIndex km + i) mod length (keys km) < length (keys km)" by simp
    then show ?thesis using False f
      by (simp add: reserveKey_eq Let_def reserved_def incrementCount_def)
  qed
qed


lemma usableAt_isUsable: "fst (isUsable km i now) = usableAt (checkReset km now) (keyAt km i) now"
  by (simp add: isUsable_eq)

lemma scan_covers:
  assumes "c < n" "j < n" "j \<noteq> c"
  shows "\<exists>i::nat. 1 \<le> i \<and> i < n \<and> (c + i) mod n = j"
proof (cases "c < j")
  case True
  then have "1 \<le> j - c \<and> j - c < n \<and> (c + (j - c)) mod n = j"
    using assms by auto
  then show ?thesis by blast
next
  case False
  then have "j < c" using assms by simp
  then have "c + (n - c + j) = n + j" "1 \<le> n - c + j" "n - c + j < n"
    using assms by simp_all
  moreover have "(n + j) mod n = j" using assms by simp
  ultimately have "1 \<le> n - c + j \<and> n - c + j < n \<and> (c + (n - c + j)) mod n = j"
    by simp
  then show ?thesis by blast
qed

lemma reserveKey_complete:
  assumes "currentIndex km < length (keys km)" "j < length (keys km)"
    and "fst (isUsable km j now)"
  shows "fst (reserveKey km now) \<noteq> None"
proof
  assume none: "fst (reserveKey km now) = None"
  have cur: "\<not> usableAt (checkReset km now) (keyAt km (currentIndex km)) now"
    using none by (simp add: reserveKey_None_iff)
  have others: "\<And>i. 1 \<le> i \<Longrightarrow> i < length (keys km) \<Longrightarrow>
        \<not> usableAt (checkReset km now) (keyAt km ((currentIndex km + i) mod length (keys km))) now"
    using none by (simp add: reserveKey_None_iff)
  have "\<not> usableAt (checkReset km now) (keyAt km j) now"
  proof (cases "j = currentIndex km")
    case True
    then show ?thesis using cur by simp
  next
    case False
    then obtain i where "1 \<le> i" "i < length (keys km)" "(currentIndex km + i) mod length (keys km) = j"
      using scan_covers [OF assms(1,2)] by blast
    then show ?thesis using others by blast
  qed
  then show False using assms(3) by (simp add: usableAt_isUsable)
qed

lemma reserveKey_all_unusable:
  assumes "currentIndex km < length (keys km)"
    and "\<forall>i < length (keys km). \<not> fst (isUsable km i now)"
  shows "fst (reserveKey km now) = None"
proof -
  have "\<not> usableAt (checkReset km now) (keyAt km (currentIndex km)) now"
    using assms by (simp add: usableAt_isUsable)
  moreover have "\<forall>i. 1 \<le> i \<and> i < length (keys km) \<longrightarrow>
        \<not> usableAt (checkReset km now) (keyAt km ((currentIndex km + i) mod length (keys km))) now"
  proof (intro allI impI)
    fix i assume "1 \<le> i \<and> i < length (keys km)"
    then have "0 < length (keys km)" by arith
    then have "(currentIndex km + i) mod length (keys km) < length (keys km)" by simp
    then show "\<not> usableAt (checkReset km now) (keyAt km ((currentIndex km + i) mod length (keys km))) now"
      using assms(2) by (simp add: usableAt_isUsable)
  qed
  ultimately show ?thesis by (simp add: reserveKey_None_iff)
qed

lemma newKeyManager_index: "ks \<noteq> [] \<Longrightarrow> currentIndex (newKeyManager ks now) < length (keys (newKeyManager ks now))"
  by (simp add: newKeyManager_def)

lemma reserveKey_index:
  assumes "currentIndex km < length (keys km)"
  shows "currentIndex (snd (reserveKey km now)) < length (keys (snd (reserveKey km now)))"
proof (cases "fst (reserveKey km now)")
  case None
  then have "snd (reserveKey km now) = checkReset km now" by (rule reserveKey_None_state)
  then show ?thesis using assms by simp
next
  case (Some key)
  then show ?thesis using reserveKey_Some_index(2) [of km now key] assms by auto
qed

lemma getWorkingKey_state: "snd (getWorkingKey km now) = snd (reserveKey km now)"
  by (simp add: getWorkingKey_def split: prod.splits option.splits)

lemma jailScan_keys [simp]: "keys (jailScan km now offs) = keys km"
  by (induction offs arbitrary: km) (simp_all add: isUsable_eq Let_def)

lemma jailScan_index:
  "keys km \<noteq> [] \<Longrightarrow> currentIndex (jailScan km now offs) < length (keys km)"
proof (induction offs arbitrary: km)
  case Nil
  then show ?case by simp
next
  case (Cons i offs)
  have "keys (checkReset km now) \<noteq> []" using Cons.prems by simp
  then have "currentIndex (jailScan (checkReset km now) now offs) < length (keys (checkReset km now))"
    by (rule Cons.IH)
  then show ?case using Cons.prems by (simp add: isUsable_eq Let_def)
qed

lemma jailCurrentKey_keys [simp]: "keys (jailCurrentKey km now d) = keys km"
  by (simp add: jailCurrentKey_def Let_def)

lemma jailCurrentKey_index:
  assumes "currentIndex km < length (keys km)"
  shows "currentIndex (jailCurrentKey km now d) < length (keys (jailCurrentKey km now d))"
proof -
  let ?km1 = "km\<lparr>jailedUntil := (jailedUntil km)(keyAt km (currentIndex km) \<mapsto> now + d)\<rparr>"
  have "keys ?km1 \<noteq> []" using assms by auto
  then have "currentIndex (jailScan ?km1 now [1..<length (keys ?km1)]) < length (keys ?km1)"
    by (rule jailScan_index)
  moreover have "keys km \<noteq> []" using assms by auto
  ultimately show ?thesis by (simp add: jailCurrentKey_def Let_def)
qed

lemmas km_defs = newKeyManager_def jailCurrentKey_def reserveKey_def isUsable_def checkReset_def
  keyAt_def resetCounts_def getCount_def incrementCount_def MAX_RPM_def RESET_INTERVAL_def Let_def
  getWorkingKey_def

lemma reserveKey_first_usable:
  assumes "currentIndex km < length (keys km)"
  shows "fst (reserveKey km now) =
         (case find (\<lambda>i. fst (isUsable km ((currentIndex km + i) mod length (keys km)) now))
                 [0..<length (keys km)] of
            None \<Rightarrow> None
          | Some i \<Rightarrow> Some (keyAt km ((currentIndex km + i) mod length (keys km))))"
proof -
  let ?n = "length (keys km)"
  let ?c = "currentIndex km"
  let ?P = "\<lambda>i. usableAt (checkReset km now) (keyAt km ((?c + i) mod ?n)) now"
  have pos: "0 < ?n"
    using assms by arith
  have upt: "[0..<?n] = 0 # [Suc 0..<?n]"
    using pos by (rule upt_conv_Cons)
  have c0: "(?c + 0) mod ?n = ?c"
    using assms by simp
  show ?thesis
  proof (cases "?P 0")
    case True
    then have "usableAt (checkReset km now) (keyAt km ?c) now"
      using c0 by simp
    then have "fst (reserveKey km now) = Some (keyAt km ?c)"
      by (simp add: reserveKey_eq Let_def)
    moreover have "find ?P [0..<?n] = Some 0"
      using True by (subst upt) simp
    ultimately show ?thesis
      using c0 by (simp add: usableAt_isUsable)
  next
    case False
    then have cur: "\<not> usableAt (checkReset km now) (keyAt km ?c) now"
      using c0 by simp
    have f: "find ?P [0..<?n] = find ?P [Suc 0..<?n]"
      using False by (subst upt) simp
    have "fst (reserveKey km now) =
          (case find ?P [Suc 0..<?n] of None \<Rightarrow> None | Some i \<Rightarrow> Some (keyAt km ((?c + i) mod ?n)))"
      using cur by (simp add: reserveKey_eq Let_def reserved_def split: option.splits)
    then show ?thesis
      using f by (simp add: usableAt_isUsable)
  qed
qed

text \<open>
  Claim C6: \<^verbatim>\<open>reserveKey\<close> returns only usable credentials. A key it returns at time \<open>now\<close>
  is not suspended beyond \<open>now\<close> and its request count of the current window (after the
  reset that is due, if any) is below the maximum of 12. Hence a key whose count has reached
  the maximum is not returned while no window reset is due, and a suspended key is not
  returned before its \<^verbatim>\<open>jailedUntil\<close> timestamp. From that timestamp on the key is eligible
  again, wherever the round-robin index stands: when it is the key at the round-robin index
  and under budget, it is returned; when it is the key at any index \<open>j\<close> of the pool and
  under budget, \<^verbatim>\<open>reserveKey\<close> returns a key, and it returns this key when no other key is
  usable. In general the key returned is the first usable one in the order of the search,
  which starts at the round-robin index and goes forward around the key array.
\<close>

theorem reserveKey_only_usable:
  "(fst (reserveKey km now) = Some key \<longrightarrow>
      (\<forall>until. jailedUntil km key = Some until \<longrightarrow> until \<le> now) \<and>
      getCount (requestCounts (checkReset km now)) key < MAX_RPM) \<and>
   (MAX_RPM \<le> getCount (requestCounts km) key \<and> now - lastResetTime km \<le> RESET_INTERVAL \<longrightarrow>
      fst (reserveKey km now) \<noteq> Some key) \<and>
   (jailedUntil km key = Some until \<and> now < until \<longrightarrow> fst (reserveKey km now) \<noteq> Some key) \<and>
   (keyAt km (currentIndex km) = key \<and> jailedUntil km key = Some until \<and> until \<le> now \<and>
    getCount (requestCounts (checkReset km now)) key < MAX_RPM \<longrightarrow>
      fst (reserveKey km now) = Some key) \<and>
   (currentIndex km < length (keys km) \<and> j < length (keys km) \<and> keyAt km j = key \<and>
    jailedUntil km key = Some until \<and> until \<le> now \<and>
    getCount (requestCounts (checkReset km now)) key < MAX_RPM \<longrightarrow>
      fst (reserveKey km now) \<noteq> None \<and>
      ((\<forall>i < length (keys km). keyAt km i \<noteq> key \<longrightarrow> \<not> fst (isUsable km i now)) \<longrightarrow>
         fst (reserveKey km now) = Some key)) \<and>
   (currentIndex km < length (keys km) \<longrightarrow>
      fst (reserveKey km now) =
        (case find (\<lambda>i. fst (isUsable km ((currentIndex km + i) mod length (keys km)) now))
                [0..<length (keys km)] of
           None \<Rightarrow> None
         | Some i \<Rightarrow> Some (keyAt km ((currentIndex km + i) mod length (keys km)))))"
proof -
  have sound: "usableAt (checkReset km now) key now" if "fst (reserveKey km now) = Some key"
    using that by (rule reserveKey_Some_usable)
  have 1: "fst (reserveKey km now) = Some key \<longrightarrow>
      (\<forall>until. jailedUntil km key = Some until \<longrightarrow> until \<le> now) \<and>
      getCount (requestCounts (checkReset km now)) key < MAX_RPM"
    using sound by (auto simp: usableAt_def)
  have 2: "MAX_RPM \<le> getCount (requestCounts km) key \<and> now - lastResetTime km \<le> RESET_INTERVAL \<longrightarrow>
      fst (reserveKey km now) \<noteq> Some key"
  proof
    assume a: "MAX_RPM \<le> getCount (requestCounts km) key \<and> now - lastResetTime km \<le> RESET_INTERVAL"
    then have "checkReset km now = km" by (simp add: checkReset_def)
    then have "\<not> usableAt (checkReset km now) key now" using a by (simp add: usableAt_def)
    then show "fst (reserveKey km now) \<noteq> Some key" using sound by blast
  qed
  have 3: "jailedUntil km key = Some until \<and> now < until \<longrightarrow> fst (reserveKey km now) \<noteq> Some key"
  proof
    assume "jailedUntil km key = Some until \<and> now < until"
    then have "\<not> usableAt (checkReset km now) key now" by (simp add: usableAt_def)
    then show "fst (reserveKey km now) \<noteq> Some key" using sound by blast
  qed
  have 4: "keyAt km (currentIndex km) = key \<and> jailedUntil km key = Some until \<and> until \<le> now \<and>
    getCount (requestCounts (checkReset km now)) key < MAX_RPM \<longrightarrow>
      fst (reserveKey km now) = Some key"
  proof
    assume "keyAt km (currentIndex km) = key \<and> jailedUntil km key = Some until \<and> until \<le> now \<and>
      getCount (requestCounts (checkReset km now)) key < MAX_RPM"
    then have "usableAt (checkReset km now) (keyAt km (currentIndex km)) now" "keyAt km (currentIndex km) = key"
      by (simp_all add: usableAt_def)
    then show "fst (reserveKey km now) = Some key"
      by (simp add: reserveKey_eq Let_def)
  qed
  have 5: "currentIndex km < length (keys km) \<and> j < length (keys km) \<and> keyAt km j = key \<and>
    jailedUntil km key = Some until \<and> until \<le> now \<and>
    getCount (requestCounts (checkReset km now)) key < MAX_RPM \<longrightarrow>
      fst (reserveKey km now) \<noteq> None \<and>
      ((\<forall>i < length (keys km). keyAt km i \<noteq> key \<longrightarrow> \<not> fst (isUsable km i now)) \<longrightarrow>
         fst (reserveKey km now) = Some key)"
  proof
    assume h: "currentIndex km < length (keys km) \<and> j < length (keys km) \<and> keyAt km j = key \<and>
      jailedUntil km key = Some until \<and> until \<le> now \<and>
      getCount (requestCounts (checkReset km now)) key < MAX_RPM"
    then have "usableAt (checkReset km now) (keyAt km j) now"
      by (simp add: usableAt_def)
    then have uj: "fst (isUsable km j now)"
      by (simp add: usableAt_isUsable)
    have idx: "currentIndex km < length (keys km)" and j: "j < length (keys km)"
      using h by simp_all
    have some: "fst (reserveKey km now) \<noteq> None"
      using idx j uj by (rule reserveKey_complete)
    have only: "fst (reserveKey km now) = Some key"
      if others: "\<forall>i < length (keys km). keyAt km i \<noteq> key \<longrightarrow> \<not> fst (isUsable km i now)"
    proof -
      obtain k where k: "fst (reserveKey km now) = Some k"
        using some by auto
      let ?i = "currentIndex (snd (reserveKey km now))"
      have at: "k = keyAt km ?i"
        using k by (rule reserveKey_Some_index(1))
      have "?i = currentIndex km \<or> ?i < length (keys km)"
        using k by (rule reserveKey_Some_index(2))
      then have lt: "?i < length (keys km)"
        using idx by auto
      have "usableAt (checkReset km now) k now"
        using k by (rule reserveKey_Some_usable)
      then have "fst (isUsable km ?i now)"
        using at by (simp add: usableAt_isUsable)
      then have "keyAt km ?i = key"
        using others lt by blast
      then show ?thesis using k at by simp
    qed
    show "fst (reserveKey km now) \<noteq> None \<and>
      ((\<forall>i < length (keys km). keyAt km i \<noteq> key \<longrightarrow> \<not> fst (isUsable km i now)) \<longrightarrow>
         fst (reserveKey km now) = Some key)"
      using some only by blast
  qed
  have 6: "currentIndex km < length (keys km) \<longrightarrow>
      fst (reserveKey km now) =
        (case find (\<lambda>i. fst (isUsable km ((currentIndex km + i) mod length (keys km)) now))
                [0..<length (keys km)] of
           None \<Rightarrow> None
         | Some i \<Rightarrow> Some (keyAt km ((currentIndex km + i) mod length (keys km))))"
    using reserveKey_first_usable by blast
  show ?thesis using 1 2 3 4 5 6 by (intro conjI)
qed

theorem reserveKey_only_usable_witness:
  "jailedUntil jailedPool (Key ''key-aaaaaaaaaa'') = Some 60005 \<and>
   fst (reserveKey jailedPool 60004) \<noteq> Some (Key ''key-aaaaaaaaaa'') \<and>
   fst (reserveKey jailedPool 60005) = Some (Key ''key-aaaaaaaaaa'') \<and>
   getCount (requestCounts exhaustedPool) (Key ''key-aaaaaaaaaa'') = 12 \<and>
   fst (reserveKey exhaustedPool 60000) \<noteq> Some (Key ''key-aaaaaaaaaa'') \<and>
   currentIndex releasedPool = 1 \<and>
   keyAt releasedPool 0 = Key ''key-aaaaaaaaaa'' \<and>
   jailedUntil releasedPool (Key ''key-aaaaaaaaaa'') = Some 60000 \<and>
   fst (reserveKey releasedPool 59999) = None \<and>
   fst (reserveKey releasedPool 60000) = Some (Key ''key-aaaaaaaaaa'')"
proof -
  let ?k = "Key ''key-aaaaaaaaaa''"
  have jail: "jailedUntil jailedPool ?k = Some 60005"
    by (simp add: jailedPool_def km_defs)
  have cur: "keyAt jailedPool (currentIndex jailedPool) = ?k"
    by (simp add: jailedPool_def km_defs)
  have cnt: "getCount (requestCounts (checkReset jailedPool 60005)) ?k < MAX_RPM"
    by (simp add: jailedPool_def km_defs)
  have full: "getCount (requestCounts exhaustedPool) ?k = 12"
    by (simp add: exhaustedPool_def getCount_def)
  have window: "60000 - lastResetTime exhaustedPool \<le> RESET_INTERVAL"
    by (simp add: exhaustedPool_def RESET_INTERVAL_def)
  have a: "fst (reserveKey jailedPool 60004) \<noteq> Some ?k"
  proof -
    have "jailedUntil jailedPool ?k = Some 60005 \<and> (60004::int) < 60005"
      using jail by simp
    then show ?thesis
      using reserveKey_only_usable [where km = jailedPool and now = 60004 and key = ?k and until = 60005]
      by blast
  qed
  have b: "fst (reserveKey jailedPool 60005) = Some ?k"
  proof -
    have "keyAt jailedPool (currentIndex jailedPool) = ?k \<and> jailedUntil jailedPool ?k = Some 60005 \<and>
          (60005::int) \<le> 60005 \<and> getCount (requestCounts (checkReset jailedPool 60005)) ?k < MAX_RPM"
      using jail cur cnt by simp
    then show ?thesis
      using reserveKey_only_usable [where km = jailedPool and now = 60005 and key = ?k and until = 60005]
      by blast
  qed
  have c: "fst (reserveKey exhaustedPool 60000) \<noteq> Some ?k"
  proof -
    have "MAX_RPM \<le> getCount (requestCounts exhaustedPool) ?k \<and>
          60000 - lastResetTime exhaustedPool \<le> RESET_INTERVAL"
      using full window by (simp add: MAX_RPM_def)
    then show ?thesis
      using reserveKey_only_usable [where km = exhaustedPool and now = 60000 and key = ?k and until = 0]
      by blast
  qed
  have ri: "currentIndex releasedPool = 1"
    by (simp add: releasedPool_def)
  have rk: "keyAt releasedPool 0 = ?k"
    by (simp add: releasedPool_def keyAt_def)
  have rj: "jailedUntil releasedPool ?k = Some 60000"
    by (simp add: releasedPool_def)
  have rc: "getCount (requestCounts (checkReset releasedPool 60000)) ?k < MAX_RPM"
    by (simp add: releasedPool_def km_defs)
  have rl: "length (keys releasedPool) = 2"
    by (simp add: releasedPool_def)
  have r1: "\<not> fst (isUsable releasedPool 1 60000)"
    by (simp add: releasedPool_def km_defs)
  have k1: "keyAt releasedPool 1 \<noteq> ?k"
    by (simp add: releasedPool_def keyAt_def)
  have others: "\<forall>i < length (keys releasedPool). keyAt releasedPool i \<noteq> ?k \<longrightarrow>
                  \<not> fst (isUsable releasedPool i 60000)"
    using r1 rk by (simp add: rl less_Suc_eq numeral_2_eq_2)
  have hyp: "currentIndex releasedPool < length (keys releasedPool) \<and> 0 < length (keys releasedPool) \<and>
        keyAt releasedPool 0 = ?k \<and> jailedUntil releasedPool ?k = Some 60000 \<and> (60000::int) \<le> 60000 \<and>
        getCount (requestCounts (checkReset releasedPool 60000)) ?k < MAX_RPM"
    using ri rk rj rc by (simp add: rl)
  have d: "fst (reserveKey releasedPool 60000) = Some ?k"
    using reserveKey_only_usable [where km = releasedPool and now = 60000 and key = ?k
        and until = 60000 and j = 0] hyp others
    by blast
  have u0: "\<not> fst (isUsable releasedPool 0 59999)" and u1: "\<not> fst (isUsable releasedPool 1 59999)"
    by (simp_all add: releasedPool_def km_defs)
  have inv: "currentIndex releasedPool < length (keys releasedPool)"
    by (simp add: ri rl)
  have "fst (reserveKey releasedPool 59999) =
        (case find (\<lambda>i. fst (isUsable releasedPool
                     ((currentIndex releasedPool + i) mod length (keys releasedPool)) 59999))
                [0..<length (keys releasedPool)] of
           None \<Rightarrow> None
         | Some i \<Rightarrow> Some (keyAt releasedPool
                     ((currentIndex releasedPool + i) mod length (keys releasedPool))))"
    using reserveKey_only_usable [where km = releasedPool and now = 59999] inv by blast
  then have e: "fst (reserveKey releasedPool 59999) = None"
    using u0 u1 by (simp add: ri rl upt_conv_Cons)
  show ?thesis using jail a b full c ri rk rj e d by (intro conjI)
qed

text \<open>
  Claim C10: for a pool with at least one key (the round-robin index inside the key array,
  which every operation preserves), \<^verbatim>\<open>getWorkingKey\<close> returns a key of the pool and never
  signals unavailability. When every key is suspended or over budget, \<^verbatim>\<open>reserveKey\<close> returns
  \<^verbatim>\<open>null\<close>, and \<^verbatim>\<open>getWorkingKey\<close> still returns the key at the current round-robin index.
\<close>

theorem getWorkingKey_total:
  assumes "currentIndex km < length (keys km)"
  shows "(\<exists>k \<in> set (keys km). fst (getWorkingKey km now) = Key k) \<and>
         ((\<forall>i < length (keys km). \<not> fst (isUsable km i now)) \<longrightarrow>
            fst (reserveKey km now) = None \<and>
            fst (getWorkingKey km now) = Key (keys km ! currentIndex km))"
proof (intro conjI impI)
  obtain r km1 where rk: "reserveKey km now = (r, km1)" by (cases "reserveKey km now")
  have keys1: "keys km1 = keys km" using reserveKey_keys [of km now] rk by simp
  have idx: "currentIndex km1 < length (keys km)"
  proof (cases r)
    case None
    then have "km1 = checkReset km now" using reserveKey_None_state [of km now] rk by simp
    then show ?thesis using assms by simp
  next
    case (Some key)
    then show ?thesis using reserveKey_Some_index(2) [of km now key] rk assms by auto
  qed
  have same: "r = Some key \<Longrightarrow> key = keyAt km (currentIndex km1)" for key
    using reserveKey_Some_index(1) [of km now key] rk by simp
  have at1: "keyAt km1 i = keyAt km i" for i
    by (simp add: keyAt_def keys1)
  have "fst (getWorkingKey km now) = keyAt km (currentIndex km1)"
  proof (cases r)
    case None
    then show ?thesis by (simp add: getWorkingKey_def rk at1)
  next
    case (Some key)
    then have "key = keyAt km (currentIndex km1)" by (rule same)
    then show ?thesis using Some by (simp add: getWorkingKey_def rk at1)
  qed
  then have "fst (getWorkingKey km now) = Key (keys km ! currentIndex km1)"
    using idx by (simp add: keyAt_def)
  then show "\<exists>k \<in> set (keys km). fst (getWorkingKey km now) = Key k"
    using idx by auto
next
  assume all: "\<forall>i < length (keys km). \<not> fst (isUsable km i now)"
  then show none: "fst (reserveKey km now) = None" using assms by (simp add: reserveKey_all_unusable)
  then have "snd (reserveKey km now) = checkReset km now" by (rule reserveKey_None_state)
  then have "reserveKey km now = (None, checkReset km now)"
    using none by (simp add: prod_eq_iff)
  then show "fst (getWorkingKey km now) = Key (keys km ! currentIndex km)"
    using assms by (simp add: getWorkingKey_def keyAt_def)
qed

theorem getWorkingKey_total_witness:
  "currentIndex allJailedPool = 0 \<and>
   keys allJailedPool = [''key-aaaaaaaaaa'', ''key-bbbbbbbbbb''] \<and>
   list_all (\<lambda>i. \<not> fst (isUsable allJailedPool i 6)) [0, 1] \<and>
   fst (reserveKey allJailedPool 6) = None \<and>
   fst (getWorkingKey allJailedPool 6) = Key ''key-aaaaaaaaaa''"
proof -
  have idx: "currentIndex allJailedPool = 0"
    by (simp add: allJailedPool_def km_defs)
  have ks: "keys allJailedPool = [''key-aaaaaaaaaa'', ''key-bbbbbbbbbb'']"
    by (simp add: allJailedPool_def newKeyManager_def)
  have inv: "currentIndex allJailedPool < length (keys allJailedPool)"
    by (simp add: idx ks)
  have u0: "\<not> fst (isUsable allJailedPool 0 6)"
    by (simp add: allJailedPool_def km_defs)
  have u1: "\<not> fst (isUsable allJailedPool 1 6)"
    by (simp add: allJailedPool_def km_defs)
  have all: "\<forall>i < length (keys allJailedPool). \<not> fst (isUsable allJailedPool i 6)"
    using u0 u1 by (simp add: ks less_Suc_eq)
  have "fst (reserveKey allJailedPool 6) = None \<and>
        fst (getWorkingKey allJailedPool 6) = Key (keys allJailedPool ! currentIndex allJailedPool)"
    using getWorkingKey_total [OF inv, of 6] all by blast
  then have r: "fst (reserveKey allJailedPool 6) = None"
    and g: "fst (getWorkingKey allJailedPool 6) = Key ''key-aaaaaaaaaa''"
    by (simp_all add: idx ks)
  have l: "list_all (\<lambda>i. \<not> fst (isUsable allJailedPool i 6)) [0, 1]"
    using u0 u1 by simp
  show ?thesis using idx ks l r g by (intro conjI)
qed

section \<open>Properties of the casting scores\<close>

lemma toLowerCase_female: "toLowerCase ''female'' = ''female''" "toLowerCase ''Female'' = ''female''"
  by (simp_all add: toLowerCase_def)

lemma includes_male_in_female: "includes_s ''female'' ''male''"
  by simp

text \<open>The code unit 201 (hexadecimal C9) becomes 233 (E9); 215 (D7) stays.\<close>

lemma toLowerChar_latin1:
  "toLowerChar (Char True False False True False False True True) =
     Char True False False True False True True True"
  "toLowerChar (Char True True True False True False True True) =
     Char True True True False True False True True"
  by simp_all

text \<open>
  Claim C2 at the input the claim names: a character of gender \<open>female\<close> and a voice of
  gender \<open>female\<close>. The first test (\<open>female\<close> against a \<open>male\<close> voice) does not apply; the
  second test asks whether the character's gender contains \<open>male\<close>, which \<open>female\<close> does, and
  the voice is \<open>female\<close>, so the score loses 100 and the branch that rewards an equal gender
  is never reached. A \<open>male\<close> character with a \<open>male\<close> voice gets the reward of 20.
\<close>

theorem genderMatch_female_female:
  "genderMatch (Some ''female'') ''female'' = - 100 \<and>
   genderMatch (Some ''Female'') ''Female'' = - 100 \<and>
   genderMatch (Some ''female'') ''male'' = - 100 \<and>
   genderMatch (Some ''male'') ''male'' = 20 \<and>
   scoreVoice \<lparr>name_c = ''Alice'', gender_c = Some ''female'', description = Some ''a young girl''\<rparr> {''Puck''} 0
     \<lparr>name = ''Kore'', analysis = \<lparr>gender = ''Female'', pitch = ''Middle'', characteristics = [''Firm'']\<rparr>\<rparr>
     = - 100"
  by (simp add: genderMatch_def scoreVoice_def descriptionMatch_def toLowerCase_def)

section \<open>Properties of the scheduler\<close>


lemma processItemResume_workers [simp]:
  "activeWorkers (processItemResume jb k res now st) = activeWorkers st"
  "pending (processItemResume jb k res now st) = pending st"
  by (auto simp: processItemResume_def split: api_result.splits sum.splits)

lemma settle_workers:
  assumes "activeWorkers st = length (pending st)" "activeWorkers st \<le> C"
  shows "activeWorkers (settle n res now st) = length (pending (settle n res now st)) \<and>
         activeWorkers (settle n res now st) \<le> C"
proof (cases "n < length (pending st)")
  case True
  obtain jb k a where p: "pending st ! n = (jb, k, a)" by (cases "pending st ! n")
  show ?thesis using True assms p
    by (cases a) (auto simp: settle_def Let_def)
next
  case False
  then show ?thesis using assms by (simp add: settle_def)
qed

lemma processQueueStep_workers:
  assumes "activeWorkers st = length (pending st)" "activeWorkers st \<le> C"
  shows "activeWorkers (processQueueStep C now st) = length (pending (processQueueStep C now st)) \<and>
         activeWorkers (processQueueStep C now st) \<le> C"
  using assms
  by (auto simp: processQueueStep_def processItemStart_def split: phase.splits list.splits prod.splits)

lemma runEvent_workers:
  assumes "activeWorkers st = length (pending st)" "activeWorkers st \<le> C"
  shows "activeWorkers (runEvent C ev st) = length (pending (runEvent C ev st)) \<and>
         activeWorkers (runEvent C ev st) \<le> C"
proof (cases ev)
  case (Step now)
  then show ?thesis using processQueueStep_workers [OF assms, of now] by simp
next
  case (Settle n res now)
  then show ?thesis using settle_workers [OF assms, of n res now] by simp
next
  case Unmount
  then show ?thesis using assms by simp
qed

lemma run_workers:
  "activeWorkers st = length (pending st) \<Longrightarrow> activeWorkers st \<le> C \<Longrightarrow>
   activeWorkers (run C events st) = length (pending (run C events st)) \<and>
   activeWorkers (run C events st) \<le> C"
proof (induction events arbitrary: st)
  case Nil
  then show ?case by (simp add: run_def)
next
  case (Cons ev events)
  have "activeWorkers (runEvent C ev st) = length (pending (runEvent C ev st)) \<and>
        activeWorkers (runEvent C ev st) \<le> C"
    using Cons.prems by (rule runEvent_workers)
  then have "activeWorkers (run C events (runEvent C ev st)) = length (pending (run C events (runEvent C ev st))) \<and>
        activeWorkers (run C events (runEvent C ev st)) \<le> C"
    using Cons.IH by blast
  then show ?case by (simp add: run_def)
qed

lemma optimizeScript_fiveLineScript: "optimizeScript fiveLineScript = fiveLineScript"
  by (simp add: optimizeScript_def fiveLineScript_def MAX_CHAR_LIMIT_def)

lemma length_fiveLineScript: "length fiveLineScript = 5"
  by (simp add: fiveLineScript_def)

lemma initGenState_fiveLineScript: "initGenState fiveLineScript km =
   \<lparr>isMounted = True,
          queue = zip fiveLineScript [0,1,2,3,4],
          activeWorkers = 0,
          pending = [],
          orderedBuffers = [None, None, None, None, None],
          completedCount = 0,
          keyManager = km,
          phase = NotStarted\<rparr>"
  by (simp add: initGenState_def optimizeScript_fiveLineScript Let_def) (simp add: fiveLineScript_def upt_conv_Cons)

lemma step_enter:
  "phase st = NotStarted \<Longrightarrow> isMounted st \<Longrightarrow> processQueueStep C now st = st\<lparr>phase := MainLoop\<rparr>"
  by (simp add: processQueueStep_def)

lemma step_dispatch:
  "phase st = MainLoop \<Longrightarrow> queue st = jb # rest \<Longrightarrow> activeWorkers st < C \<Longrightarrow>
   reserveKey (keyManager st) now = (Some (Key k), km') \<Longrightarrow> k \<noteq> [] \<Longrightarrow>
   processQueueStep C now st =
     st\<lparr>keyManager := km', queue := rest, activeWorkers := activeWorkers st + 1,
        pending := pending st @ [(jb, Key k, isMounted st)]\<rparr>"
  by (simp add: processQueueStep_def processItemStart_def)

lemma step_wait:
  "phase st = MainLoop \<Longrightarrow> queue st = jb # rest \<Longrightarrow> C \<le> activeWorkers st \<Longrightarrow>
   processQueueStep C now st = st"
  by (simp add: processQueueStep_def)

lemma step_exit:
  "phase st = MainLoop \<Longrightarrow> queue st = [] \<Longrightarrow> processQueueStep C now st = st\<lparr>phase := Stragglers\<rparr>"
  by (simp add: processQueueStep_def)

lemma singleKeyPool_reserve_first: "reserveKey singleKeyPool 1 =
   (Some (Key ''key-aaaaaaaaaa''), singleKeyPool\<lparr>requestCounts := [Key ''key-aaaaaaaaaa'' \<mapsto> 1]\<rparr>)"
  by (simp add: singleKeyPool_def km_defs)

lemma singleKeyPool_reserve_second: "reserveKey (singleKeyPool\<lparr>requestCounts := [Key ''key-aaaaaaaaaa'' \<mapsto> 1]\<rparr>) 1 =
   (Some (Key ''key-aaaaaaaaaa''), singleKeyPool\<lparr>requestCounts := [Key ''key-aaaaaaaaaa'' \<mapsto> 2]\<rparr>)"
  by (simp add: singleKeyPool_def km_defs numeral_2_eq_2)

lemma fiveJobs_run: "activeWorkers (run 2 [Step 0, Step 1, Step 1, Step 1] (initGenState fiveLineScript singleKeyPool)) = 2 \<and>
   length (queue (run 2 [Step 0, Step 1, Step 1, Step 1] (initGenState fiveLineScript singleKeyPool))) = 3"
proof -
  define s0 where "s0 = initGenState fiveLineScript singleKeyPool"
  define s1 where "s1 = s0\<lparr>phase := MainLoop\<rparr>"
  define s2 where "s2 =
     s1\<lparr>keyManager := singleKeyPool\<lparr>requestCounts := [Key ''key-aaaaaaaaaa'' \<mapsto> 1]\<rparr>,
        queue := tl (queue s1), activeWorkers := activeWorkers s1 + 1,
        pending := pending s1 @ [(hd (queue s1), Key ''key-aaaaaaaaaa'', isMounted s1)]\<rparr>"
  define s3 where "s3 =
     s2\<lparr>keyManager := singleKeyPool\<lparr>requestCounts := [Key ''key-aaaaaaaaaa'' \<mapsto> 2]\<rparr>,
        queue := tl (queue s2), activeWorkers := activeWorkers s2 + 1,
        pending := pending s2 @ [(hd (queue s2), Key ''key-aaaaaaaaaa'', isMounted s2)]\<rparr>"
  have q0: "length (queue s0) = 5" "activeWorkers s0 = 0" "phase s0 = NotStarted" "isMounted s0"
    "keyManager s0 = singleKeyPool"
    by (simp_all add: s0_def initGenState_fiveLineScript length_fiveLineScript)
  have e1: "processQueueStep 2 0 s0 = s1"
    unfolding s1_def using q0 by (intro step_enter)
  have q1: "queue s1 = hd (queue s1) # tl (queue s1)" "length (queue s1) = 5" "activeWorkers s1 = 0"
    "phase s1 = MainLoop" "keyManager s1 = singleKeyPool"
    using q0 by (simp_all add: s1_def length_greater_0_conv [symmetric] del: length_greater_0_conv)
  have r1: "reserveKey (keyManager s1) 1 =
      (Some (Key ''key-aaaaaaaaaa''), singleKeyPool\<lparr>requestCounts := [Key ''key-aaaaaaaaaa'' \<mapsto> 1]\<rparr>)"
    unfolding q1(5) by (rule singleKeyPool_reserve_first)
  have e2: "processQueueStep 2 1 s1 = s2"
    unfolding s2_def
    by (rule step_dispatch [OF q1(4) q1(1) _ r1]) (simp_all add: q1(3))
  have q2: "queue s2 = hd (queue s2) # tl (queue s2)" "length (queue s2) = 4" "activeWorkers s2 = 1"
    "phase s2 = MainLoop" "keyManager s2 = singleKeyPool\<lparr>requestCounts := [Key ''key-aaaaaaaaaa'' \<mapsto> 1]\<rparr>"
    using q1 by (simp_all add: s2_def length_greater_0_conv [symmetric] del: length_greater_0_conv)
  have r2: "reserveKey (keyManager s2) 1 =
      (Some (Key ''key-aaaaaaaaaa''), singleKeyPool\<lparr>requestCounts := [Key ''key-aaaaaaaaaa'' \<mapsto> 2]\<rparr>)"
    unfolding q2(5) by (rule singleKeyPool_reserve_second)
  have e3: "processQueueStep 2 1 s2 = s3"
    unfolding s3_def
    by (rule step_dispatch [OF q2(4) q2(1) _ r2]) (simp_all add: q2(3))
  have q3: "queue s3 = hd (queue s3) # tl (queue s3)" "length (queue s3) = 3" "activeWorkers s3 = 2"
    "phase s3 = MainLoop"
    using q2 by (simp_all add: s3_def length_greater_0_conv [symmetric] del: length_greater_0_conv)
  have e4: "processQueueStep 2 1 s3 = s3"
    by (rule step_wait [OF q3(4) q3(1)]) (simp add: q3)
  have "run 2 [Step 0, Step 1, Step 1, Step 1] s0 = s3"
    by (simp add: run_def e1 e2 e3 e4)
  then show ?thesis using q3 by (simp add: s0_def)
qed

text \<open>
  Claim C8, as the code has it: in every state that a run reaches, through any sequence of
  scheduler steps, settled calls and an unmount, the counter \<^verbatim>\<open>activeWorkers\<close> equals the number
  of calls of \<^verbatim>\<open>processItem\<close> that have not settled and is at most \<open>C = min(3, 2 \<times> keyCount)\<close>.
  \<open>C\<close> is at least 1 when the pool holds at least one key.
\<close>

theorem activeWorkers_bounded:
  "activeWorkers (run (MAX_CONCURRENCY (activeKeyCount km)) events (initGenState script km))
     \<le> MAX_CONCURRENCY (activeKeyCount km) \<and>
   length (pending (run (MAX_CONCURRENCY (activeKeyCount km)) events (initGenState script km)))
     = activeWorkers (run (MAX_CONCURRENCY (activeKeyCount km)) events (initGenState script km)) \<and>
   MAX_CONCURRENCY (activeKeyCount km) = min 3 (2 * activeKeyCount km) \<and>
   (1 \<le> activeKeyCount km \<longrightarrow> 1 \<le> MAX_CONCURRENCY (activeKeyCount km))"
proof -
  let ?st = "initGenState script km"
  have "activeWorkers ?st = length (pending ?st)" "activeWorkers ?st \<le> MAX_CONCURRENCY (activeKeyCount km)"
    by (simp_all add: initGenState_def Let_def)
  then have "activeWorkers (run (MAX_CONCURRENCY (activeKeyCount km)) events ?st)
       = length (pending (run (MAX_CONCURRENCY (activeKeyCount km)) events ?st)) \<and>
     activeWorkers (run (MAX_CONCURRENCY (activeKeyCount km)) events ?st) \<le> MAX_CONCURRENCY (activeKeyCount km)"
    by (rule run_workers)
  moreover have "MAX_CONCURRENCY (activeKeyCount km) = min 3 (2 * activeKeyCount km)"
    by (simp add: MAX_CONCURRENCY_def mult.commute)
  moreover have "1 \<le> activeKeyCount km \<longrightarrow> 1 \<le> MAX_CONCURRENCY (activeKeyCount km)"
    by (simp add: MAX_CONCURRENCY_def)
  ultimately show ?thesis by simp
qed

theorem activeWorkers_bounded_witness:
  "1 \<le> activeKeyCount singleKeyPool \<and>
   MAX_CONCURRENCY (activeKeyCount singleKeyPool) = 2 \<and>
   activeWorkers (run (MAX_CONCURRENCY (activeKeyCount singleKeyPool)) [Step 0, Step 1, Step 1, Step 1]
     (initGenState fiveLineScript singleKeyPool)) = 2 \<and>
   length (queue (run (MAX_CONCURRENCY (activeKeyCount singleKeyPool)) [Step 0, Step 1, Step 1, Step 1]
     (initGenState fiveLineScript singleKeyPool))) = 3"
proof -
  have k: "1 \<le> activeKeyCount singleKeyPool"
    by (simp add: activeKeyCount_def singleKeyPool_def newKeyManager_def)
  have "1 \<le> MAX_CONCURRENCY (activeKeyCount singleKeyPool) \<and>
        MAX_CONCURRENCY (activeKeyCount singleKeyPool) = min 3 (2 * activeKeyCount singleKeyPool)"
    using activeWorkers_bounded [of singleKeyPool "[Step 0, Step 1, Step 1, Step 1]" fiveLineScript] k
    by blast
  moreover have "activeKeyCount singleKeyPool = 1"
    by (simp add: activeKeyCount_def singleKeyPool_def newKeyManager_def)
  ultimately have c: "MAX_CONCURRENCY (activeKeyCount singleKeyPool) = 2"
    by simp
  show ?thesis using k c fiveJobs_run by simp
qed

text \<open>
  The claim as stated gives \<open>C\<close> a lower bound of 1 for every pool. A pool without a valid key
  (the constructor reports \<^verbatim>\<open>No valid API keys found!\<close> and goes on) has \<open>C = 0\<close>.
\<close>

theorem activeWorkers_bounded_counterexample:
  "\<not> 1 \<le> MAX_CONCURRENCY (activeKeyCount (newKeyManager [] 0))"
  by (simp add: MAX_CONCURRENCY_def activeKeyCount_def newKeyManager_def)

section \<open>Properties of audio assembly and encoding\<close>


lemma foldl_length_sum:
  "foldl (\<lambda>acc b. acc + length_b b) a bs = a + sum_list (map length_b bs)"
  by (induction bs arbitrary: a) simp_all

lemma createBuffer_wf:
  "createBuffer n len rate = Inr b \<Longrightarrow>
   wfAudioBuffer b \<and> numberOfChannels b = n \<and> length_b b = len \<and> sampleRate b = rate \<and>
   channelData b = replicate n (replicate len 0)"
  by (auto simp: createBuffer_def wfAudioBuffer_def list_all_iff split: if_splits)

lemma wf_channel:
  "wfAudioBuffer b \<Longrightarrow> channel < numberOfChannels b \<Longrightarrow>
   getChannelData b channel = Inr (channelData b ! channel) \<and> length (channelData b ! channel) = length_b b"
  by (simp add: wfAudioBuffer_def getChannelData_def list_all_length)

lemma copyChannel_concat:
  assumes "\<forall>b \<in> set bs. wfAudioBuffer b \<and> channel < numberOfChannels b"
    and "offset + sum_list (map length_b bs) \<le> length resultData"
  shows "copyChannel channel bs offset resultData =
         Inr (take offset resultData @ concat (map (\<lambda>b. channelData b ! channel) bs)
              @ drop (offset + sum_list (map length_b bs)) resultData)"
  using assms
proof (induction bs arbitrary: offset resultData)
  case Nil
  then show ?case by simp
next
  case (Cons b bs)
  let ?src = "channelData b ! channel"
  have src: "getChannelData b channel = Inr ?src" "length ?src = length_b b"
    using Cons.prems(1) wf_channel [of b channel] by simp_all
  let ?r = "take offset resultData @ ?src @ drop (offset + length ?src) resultData"
  have fits: "offset + length ?src \<le> length resultData"
    using Cons.prems(2) src(2) by simp
  then have set: "typedArraySet resultData ?src offset = Inr ?r"
    by (simp add: typedArraySet_def)
  have len: "length ?r = length resultData"
    using fits by simp
  have "copyChannel channel bs (offset + length_b b) ?r =
        Inr (take (offset + length_b b) ?r @ concat (map (\<lambda>b. channelData b ! channel) bs)
             @ drop (offset + length_b b + sum_list (map length_b bs)) ?r)"
  proof (rule Cons.IH)
    show "\<forall>b \<in> set bs. wfAudioBuffer b \<and> channel < numberOfChannels b"
      using Cons.prems(1) by simp
    show "offset + length_b b + sum_list (map length_b bs) \<le> length ?r"
      using Cons.prems(2) len by simp
  qed
  moreover have "take (offset + length_b b) ?r = take offset resultData @ ?src"
    using fits src(2) by simp
  moreover have "drop (offset + length_b b + sum_list (map length_b bs)) ?r =
                 drop (offset + length_b b + sum_list (map length_b bs)) resultData"
    using fits src(2) by (simp add: add.commute)
  ultimately show ?case
    using src set by (simp add: add.assoc)
qed


lemma fold_update_upt:
  "k \<le> length cd \<Longrightarrow> fold (\<lambda>c cd. cd[c := f c]) [0..<k] cd = map f [0..<k] @ drop k cd"
proof (induction k)
  case 0
  then show ?case by simp
next
  case (Suc k)
  then have "fold (\<lambda>c cd. cd[c := f c]) [0..<k] cd = map f [0..<k] @ drop k cd" by simp
  moreover have "drop k cd = cd ! k # drop (Suc k) cd"
    using Suc.prems by (simp add: Cons_nth_drop_Suc)
  ultimately show ?case
    by (simp add: list_update_append)
qed

lemma fillChannels_fold:
  assumes "\<forall>b \<in> set bs. wfAudioBuffer b \<and> numberOfChannels b = n"
    and "numberOfChannels result = n" "length (channelData result) = n"
    and "\<forall>c \<in> set (channelData result). length c = sum_list (map length_b bs)"
    and "\<forall>c \<in> set chs. c < n"
  shows "fillChannels result bs chs =
         Inr (result\<lparr>channelData :=
                fold (\<lambda>c cd. cd[c := concat (map (\<lambda>b. channelData b ! c) bs)]) chs (channelData result)\<rparr>)"
  using assms(2-)
proof (induction chs arbitrary: result)
  case Nil
  then show ?case by simp
next
  case (Cons c chs)
  let ?total = "sum_list (map length_b bs)"
  let ?filled = "concat (map (\<lambda>b. channelData b ! c) bs)"
  have c: "c < n" using Cons.prems(4) by simp
  have rd: "getChannelData result c = Inr (channelData result ! c)"
    using c Cons.prems(1,2) by (simp add: getChannelData_def)
  have rl: "length (channelData result ! c) = ?total"
    using c Cons.prems(2,3) by simp
  have "copyChannel c bs 0 (channelData result ! c) =
        Inr (take 0 (channelData result ! c) @ ?filled @ drop (0 + ?total) (channelData result ! c))"
    by (rule copyChannel_concat) (use assms(1) c rl in auto)
  then have cp: "copyChannel c bs 0 (channelData result ! c) = Inr ?filled"
    using rl by simp
  have fl: "length ?filled = ?total"
    using assms(1) c wf_channel by (induction bs) auto
  let ?result' = "result\<lparr>channelData := (channelData result)[c := ?filled]\<rparr>"
  have "fillChannels ?result' bs chs =
        Inr (?result'\<lparr>channelData :=
               fold (\<lambda>c cd. cd[c := concat (map (\<lambda>b. channelData b ! c) bs)]) chs (channelData ?result')\<rparr>)"
  proof (rule Cons.IH)
    show "numberOfChannels ?result' = n" using Cons.prems(1) by simp
    show "length (channelData ?result') = n" using Cons.prems(2) by simp
    show "\<forall>c \<in> set (channelData ?result'). length c = ?total"
      using Cons.prems(3) fl by (auto dest!: set_update_subset_insert [THEN subsetD])
    show "\<forall>c \<in> set chs. c < n" using Cons.prems(4) by simp
  qed
  then show ?case using rd cp by simp
qed

lemma concatenate_valid:
  assumes "validBuffers_of buffers = b # bs"
    and "\<forall>x \<in> set (b # bs). wfAudioBuffer x \<and> numberOfChannels x = numberOfChannels b"
  shows "concatenateAudioBuffers buffers =
         Inr \<lparr>numberOfChannels = numberOfChannels b,
              length_b = sum_list (map length_b (b # bs)),
              sampleRate = sampleRate b,
              channelData = map (\<lambda>c. concat (map (\<lambda>x. channelData x ! c) (b # bs)))
                              [0..<numberOfChannels b]\<rparr>"
proof -
  let ?n = "numberOfChannels b"
  let ?total = "sum_list (map length_b (b # bs))"
  have ne: "buffers \<noteq> []" using assms(1) by (auto simp: validBuffers_of_def)
  have wfb: "wfAudioBuffer b" using assms(2) by simp
  then have pos: "0 < ?n" "0 < length_b b" by (simp_all add: wfAudioBuffer_def)
  then have tot: "0 < ?total" by simp
  obtain result where cr: "createBuffer ?n ?total (sampleRate b) = Inr result"
    using pos tot by (simp add: createBuffer_def)
  have r: "numberOfChannels result = ?n" "length_b result = ?total" "sampleRate result = sampleRate b"
    "channelData result = replicate ?n (replicate ?total 0)"
    using createBuffer_wf [OF cr] by simp_all
  have "fillChannels result (b # bs) [0..<?n] =
        Inr (result\<lparr>channelData :=
               fold (\<lambda>c cd. cd[c := concat (map (\<lambda>x. channelData x ! c) (b # bs))]) [0..<?n] (channelData result)\<rparr>)"
    by (rule fillChannels_fold [where n = ?n]) (use assms(2) r in auto)
  moreover have "fold (\<lambda>c cd. cd[c := concat (map (\<lambda>x. channelData x ! c) (b # bs))]) [0..<?n] (channelData result)
      = map (\<lambda>c. concat (map (\<lambda>x. channelData x ! c) (b # bs))) [0..<?n]"
    using fold_update_upt [of ?n "channelData result"] r(4) by simp
  ultimately have "fillChannels result (b # bs) [0..<?n] =
        Inr \<lparr>numberOfChannels = ?n, length_b = ?total, sampleRate = sampleRate b,
             channelData = map (\<lambda>c. concat (map (\<lambda>x. channelData x ! c) (b # bs))) [0..<?n]\<rparr>"
    using r by simp
  then show ?thesis
    using ne assms(1) pos(2) cr
    by (simp add: concatenateAudioBuffers_def Let_def foldl_length_sum)
qed


lemma unat_byte: "unat (word_of_nat (d mod 256) :: byte) = d mod 256"
  by (simp add: unat_of_nat)

lemma le32_value:
  "d mod 256 + 256 * (d div 256 mod 256) + 65536 * (d div 65536 mod 256)
     + 16777216 * (d div 16777216 mod 256) = d mod 4294967296" for d :: nat
proof -
  have a: "d mod (256 * 256) = 256 * (d div 256 mod 256) + d mod 256"
    by (rule mod_mult2_eq)
  have b: "d mod (65536 * 256) = 65536 * (d div 65536 mod 256) + d mod 65536"
    by (rule mod_mult2_eq)
  have c: "d mod (16777216 * 256) = 16777216 * (d div 16777216 mod 256) + d mod 16777216"
    by (rule mod_mult2_eq)
  show ?thesis using a b c by simp
qed

lemma le16_value:
  "d mod 256 + 256 * (d div 256 mod 256) = d mod 65536" for d :: nat
  using mod_mult2_eq [of d 256 256] by simp

lemma getUint32_setUint32:
  "getUint32 (xs @ setUint32 d @ ys) (length xs) = d mod 4294967296"
  by (simp add: getUint32_def setUint32_def nth_append unat_byte le32_value)

lemma getUint16_setUint16:
  "getUint16 (xs @ setUint16 d @ ys) (length xs) = d mod 65536"
  by (simp add: getUint16_def setUint16_def nth_append unat_byte le16_value)

lemma length_setUint [simp]: "length (setUint32 d) = 4" "length (setUint16 d) = 2"
  by (simp_all add: setUint32_def setUint16_def)

lemma wavHeader_length [simp]: "length (wavHeader b) = 44"
  by (simp add: wavHeader_def Let_def)

lemma frameBytes_length [simp]: "length (frameBytes chans n pos) = 2 * n"
  by (simp add: frameBytes_def setInt16_def length_concat comp_def sum_list_triv)

lemma bufferToWav_length:
  "bufferToWav b = Inr bytes \<Longrightarrow> length bytes = length_b b * numberOfChannels b * 2 + 44"
  by (auto simp: bufferToWav_def Let_def length_concat comp_def sum_list_triv split: if_splits)


lemma getUint32_at:
  "length xs = off \<Longrightarrow> getUint32 (xs @ setUint32 d @ ys) off = d mod 4294967296"
  using getUint32_setUint32 [of xs d ys] by simp

lemma getUint16_at:
  "length xs = off \<Longrightarrow> getUint16 (xs @ setUint16 d @ ys) off = d mod 65536"
  using getUint16_setUint16 [of xs d ys] by simp

lemma bufferToWav_fields:
  assumes "bufferToWav b = Inr bytes"
  shows "getUint32 bytes 4 = (length_b b * numberOfChannels b * 2 + 36) mod 4294967296"
    and "wavChannels bytes = numberOfChannels b mod 65536"
    and "wavSampleRate bytes = sampleRate b mod 4294967296"
    and "getUint16 bytes 32 = numberOfChannels b * 2 mod 65536"
    and "getUint32 bytes 40 = (length_b b * numberOfChannels b * 2 + 40) mod 4294967296"
proof -
  let ?n = "numberOfChannels b"
  let ?len = "length_b b * ?n * 2 + 44"
  let ?data = "concat (map (frameBytes (channelData b) ?n) [0..<length_b b])"
  have bytes: "bytes = wavHeader b @ ?data"
    using assms by (auto simp: bufferToWav_def Let_def split: if_splits)
  let ?h1 = "setUint32 0x46464952"
  let ?h2 = "?h1 @ setUint32 (?len - 8) @ setUint32 0x45564157 @ setUint32 0x20746d66 @ setUint32 16 @ setUint16 1"
  let ?h3 = "?h2 @ setUint16 ?n"
  let ?h4 = "?h3 @ setUint32 (sampleRate b) @ setUint32 (sampleRate b * 2 * ?n)"
  let ?h5 = "?h4 @ setUint16 (?n * 2) @ setUint16 16 @ setUint32 0x61746164"
  have 1: "bytes = ?h1 @ setUint32 (?len - 8) @
      (setUint32 0x45564157 @ setUint32 0x20746d66 @ setUint32 16 @ setUint16 1 @ setUint16 ?n
       @ setUint32 (sampleRate b) @ setUint32 (sampleRate b * 2 * ?n) @ setUint16 (?n * 2)
       @ setUint16 16 @ setUint32 0x61746164 @ setUint32 (?len - 0 - 4) @ ?data)"
    by (simp add: bytes wavHeader_def Let_def)
  have 2: "bytes = ?h2 @ setUint16 ?n @
      (setUint32 (sampleRate b) @ setUint32 (sampleRate b * 2 * ?n) @ setUint16 (?n * 2)
       @ setUint16 16 @ setUint32 0x61746164 @ setUint32 (?len - 0 - 4) @ ?data)"
    by (simp add: bytes wavHeader_def Let_def)
  have 3: "bytes = ?h3 @ setUint32 (sampleRate b) @
      (setUint32 (sampleRate b * 2 * ?n) @ setUint16 (?n * 2)
       @ setUint16 16 @ setUint32 0x61746164 @ setUint32 (?len - 0 - 4) @ ?data)"
    by (simp add: bytes wavHeader_def Let_def)
  have 4: "bytes = ?h4 @ setUint16 (?n * 2) @
      (setUint16 16 @ setUint32 0x61746164 @ setUint32 (?len - 0 - 4) @ ?data)"
    by (simp add: bytes wavHeader_def Let_def)
  have 5: "bytes = ?h5 @ setUint32 (?len - 0 - 4) @ ?data"
    by (simp add: bytes wavHeader_def Let_def)
  have l: "length ?h1 = 4" "length ?h2 = 22" "length ?h3 = 24" "length ?h4 = 32" "length ?h5 = 40"
    by simp_all
  have "getUint32 bytes 4 = (?len - 8) mod 4294967296"
    by (subst 1, rule getUint32_at) (rule l)
  then show "getUint32 bytes 4 = (length_b b * ?n * 2 + 36) mod 4294967296"
    by (simp add: add.commute)
  show "wavChannels bytes = ?n mod 65536"
    unfolding wavChannels_def by (subst 2, rule getUint16_at) (rule l)
  show "wavSampleRate bytes = sampleRate b mod 4294967296"
    unfolding wavSampleRate_def by (subst 3, rule getUint32_at) (rule l)
  show "getUint16 bytes 32 = ?n * 2 mod 65536"
    by (subst 4, rule getUint16_at) (rule l)
  have "getUint32 bytes 40 = (?len - 0 - 4) mod 4294967296"
    by (subst 5, rule getUint32_at) (rule l)
  then show "getUint32 bytes 40 = (length_b b * ?n * 2 + 40) mod 4294967296"
    by (simp add: add.commute)
qed


lemma int16Array_length: "length (int16Array data) = length data div 2"
  by (induction data rule: int16Array.induct) (simp_all add: Let_def)

lemma decodeAudioData_mono:
  assumes "even (length data)" "data \<noteq> []"
  shows "decodeAudioData data rate 1 =
         Inr \<lparr>numberOfChannels = 1, length_b = length data div 2, sampleRate = rate,
              channelData = [map (\<lambda>v. real_of_int v / 32768) (int16Array data)]\<rparr>"
proof -
  have "2 \<le> length data" using assms by (cases data rule: int16Array.cases) auto
  then have pos: "0 < length data div 2" by simp
  have "map (\<lambda>i. real_of_int (int16Array data ! i) / 32768) [0..<length (int16Array data)]
        = map (\<lambda>v. real_of_int v / 32768) (int16Array data)"
  proof -
    have "map (\<lambda>i. real_of_int (int16Array data ! i) / 32768) [0..<length (int16Array data)]
          = map (\<lambda>v. real_of_int v / 32768) (map ((!) (int16Array data)) [0..<length (int16Array data)])"
      by (simp only: map_map comp_def)
    then show ?thesis by (simp only: map_nth)
  qed
  moreover have "int16Array data \<noteq> []"
    using pos int16Array_length [of data] by auto
  ultimately show ?thesis
    using assms(1) pos
    by (simp add: decodeAudioData_def createBuffer_def Let_def int16Array_length)
qed


lemma combinedChunk_ok:
  assumes "even (length raw)" "raw \<noteq> []"
  shows "combinedChunk raw =
         Inr \<lparr>numberOfChannels = 1, length_b = length raw div 2 + 6000, sampleRate = 24000,
              channelData = [chunkSamples raw]\<rparr>"
proof -
  let ?d = "\<lparr>numberOfChannels = 1, length_b = length raw div 2, sampleRate = 24000,
              channelData = [map (\<lambda>v. real_of_int v / 32768) (int16Array raw)]\<rparr>"
  let ?p = "\<lparr>numberOfChannels = 1, length_b = 6000, sampleRate = 24000,
              channelData = replicate 1 (replicate 6000 (0::real))\<rparr>"
  have "2 \<le> length raw" using assms by (cases raw rule: int16Array.cases) auto
  then have pos: "0 < length raw div 2" by simp
  have d: "decodeAudioData raw 24000 1 = Inr ?d" using assms by (rule decodeAudioData_mono)
  have p: "createBuffer 1 6000 24000 = Inr ?p" by (simp add: createBuffer_def)
  have v: "validBuffers_of [Some ?d, Some ?p] = [?d, ?p]"
    using pos by (simp add: validBuffers_of_def)
  have wf: "\<forall>x \<in> set [?d, ?p]. wfAudioBuffer x \<and> numberOfChannels x = numberOfChannels ?d"
    using pos by (simp add: wfAudioBuffer_def int16Array_length)
  have "concatenateAudioBuffers [Some ?d, Some ?p] =
        Inr \<lparr>numberOfChannels = numberOfChannels ?d,
              length_b = sum_list (map length_b [?d, ?p]),
              sampleRate = sampleRate ?d,
              channelData = map (\<lambda>c. concat (map (\<lambda>x. channelData x ! c) [?d, ?p]))
                              [0..<numberOfChannels ?d]\<rparr>"
    using v wf by (rule concatenate_valid)
  then show ?thesis
    unfolding combinedChunk_def d p by (simp add: chunkSamples_def)
qed


lemma combinedChunk_chunkBuffer: "okBytes raw \<Longrightarrow> combinedChunk raw = Inr (chunkBuffer raw)"
  by (simp add: okBytes_def chunkBuffer_def combinedChunk_ok)

lemma chunkBuffer_wf:
  "wfAudioBuffer (chunkBuffer raw)" "numberOfChannels (chunkBuffer raw) = 1" "0 < length_b (chunkBuffer raw)"
  by (simp_all add: chunkBuffer_def wfAudioBuffer_def chunkSamples_def int16Array_length)

lemma resume_store:
  assumes "okBytes raw"
  shows "processItemResume jb k (AudioData raw) now st =
         st\<lparr>orderedBuffers := storeAt (snd jb) (chunkBuffer raw) (orderedBuffers st),
            completedCount := completedCount st + 1\<rparr>"
  using assms combinedChunk_chunkBuffer [OF assms]
  by (simp add: processItemResume_def okBytes_def)

lemma completeAll_Cons:
  "completeAll (c # cs) now st =
   completeAll cs now (processItemResume (fst c) (fst (snd c)) (AudioData (compBytes c)) now st)"
  by (cases c) (simp add: completeAll_def)

lemma completeAll_length:
  "\<forall>c \<in> set cs. okBytes (compBytes c) \<and> compIndex c < length (orderedBuffers st) \<Longrightarrow>
   length (orderedBuffers (completeAll cs now st)) = length (orderedBuffers st)"
proof (induction cs arbitrary: st)
  case Nil
  then show ?case by (simp add: completeAll_def)
next
  case (Cons c cs)
  obtain jb k raw where c: "c = (jb, k, raw)" by (cases c)
  let ?st = "processItemResume jb k (AudioData raw) now st"
  have ok: "okBytes raw" "snd jb < length (orderedBuffers st)" using Cons.prems c by simp_all
  have len: "length (orderedBuffers ?st) = length (orderedBuffers st)"
    using ok by (simp add: resume_store storeAt_def)
  have "length (orderedBuffers (completeAll cs now ?st)) = length (orderedBuffers ?st)"
    by (rule Cons.IH) (use Cons.prems len in simp)
  then show ?case using len c by (simp add: completeAll_Cons)
qed

lemma completeAll_slot:
  assumes "\<forall>c \<in> set cs. okBytes (compBytes c) \<and> compIndex c < length (orderedBuffers st)"
    and "\<forall>c \<in> set cs. compIndex c = i \<longrightarrow> compBytes c = raw"
    and "i < length (orderedBuffers st)"
  shows "orderedBuffers (completeAll cs now st) ! i =
         (if i \<in> compIndex ` set cs then Some (chunkBuffer raw) else orderedBuffers st ! i)"
  using assms
proof (induction cs arbitrary: st)
  case Nil
  then show ?case by (simp add: completeAll_def)
next
  case (Cons c cs)
  obtain jb k r where c: "c = (jb, k, r)" by (cases c)
  let ?st = "processItemResume jb k (AudioData r) now st"
  have ok: "okBytes r" "snd jb < length (orderedBuffers st)" using Cons.prems(1) c by simp_all
  have arr: "orderedBuffers ?st = (orderedBuffers st)[snd jb := Some (chunkBuffer r)]"
    using ok by (simp add: resume_store storeAt_def)
  have ih: "orderedBuffers (completeAll cs now ?st) ! i =
         (if i \<in> compIndex ` set cs then Some (chunkBuffer raw) else orderedBuffers ?st ! i)"
    by (rule Cons.IH) (use Cons.prems arr in simp_all)
  show ?case
  proof (cases "snd jb = i")
    case True
    then have "r = raw" using Cons.prems(2) c by simp
    then show ?thesis using ih arr True Cons.prems(3) c by (simp add: completeAll_Cons)
  next
    case False
    then show ?thesis using ih arr c by (simp add: completeAll_Cons)
  qed
qed


lemma distinct_index_unique:
  assumes "distinct (map compIndex cs)" "c \<in> set cs" "c' \<in> set cs" "compIndex c' = compIndex c"
  shows "c' = c"
  using assms by (meson distinct_map inj_on_def)

lemma validBuffers_of_filter:
  "\<forall>x \<in> set xs. \<forall>b. x = Some b \<longrightarrow> 0 < length_b b \<Longrightarrow>
   validBuffers_of (filter (\<lambda>b. b \<noteq> None) xs) = map the (filter (\<lambda>b. b \<noteq> None) xs)"
  by (induction xs) (auto simp: validBuffers_of_def)

lemma chunkBuffer_rate: "sampleRate (chunkBuffer raw) = 24000"
  by (simp add: chunkBuffer_def)

lemma final_slots:
  assumes ok: "\<forall>c \<in> set cs. okBytes (compBytes c) \<and> compIndex c < n"
    and dist: "distinct (map compIndex cs)"
    and fresh: "orderedBuffers st = replicate n None"
  shows "length (orderedBuffers (completeAll cs now st)) = n"
    and "c \<in> set cs \<Longrightarrow> orderedBuffers (completeAll cs now st) ! compIndex c = Some (chunkBuffer (compBytes c))"
    and "i < n \<Longrightarrow> i \<notin> compIndex ` set cs \<Longrightarrow> orderedBuffers (completeAll cs now st) ! i = None"
proof -
  have ok': "\<forall>c \<in> set cs. okBytes (compBytes c) \<and> compIndex c < length (orderedBuffers st)"
    using ok fresh by simp
  show "length (orderedBuffers (completeAll cs now st)) = n"
    using completeAll_length [OF ok'] fresh by simp
  show "orderedBuffers (completeAll cs now st) ! compIndex c = Some (chunkBuffer (compBytes c))"
    if c: "c \<in> set cs"
  proof -
    have u: "\<forall>c' \<in> set cs. compIndex c' = compIndex c \<longrightarrow> compBytes c' = compBytes c"
      using distinct_index_unique [OF dist c] by blast
    have "compIndex c < length (orderedBuffers st)" using ok' c by blast
    then show ?thesis using completeAll_slot [OF ok' u] c by simp
  qed
  show "orderedBuffers (completeAll cs now st) ! i = None" if "i < n" "i \<notin> compIndex ` set cs"
  proof -
    have u: "\<forall>c' \<in> set cs. compIndex c' = i \<longrightarrow> compBytes c' = []"
      using that(2) by auto
    have "i < length (orderedBuffers st)" using that(1) fresh by simp
    then show ?thesis using completeAll_slot [OF ok' u] that fresh by simp
  qed
qed

lemma final_order_independent:
  assumes ok: "\<forall>c \<in> set cs. okBytes (compBytes c) \<and> compIndex c < n"
    and dist: "distinct (map compIndex cs)"
    and fresh: "orderedBuffers st = replicate n None"
    and perm: "set cs' = set cs"
  shows "orderedBuffers (completeAll cs' now' st) = orderedBuffers (completeAll cs now st)"
proof (rule nth_equalityI)
  have ok1: "\<forall>c \<in> set cs. okBytes (compBytes c) \<and> compIndex c < length (orderedBuffers st)"
    using ok fresh by simp
  then have ok2: "\<forall>c \<in> set cs'. okBytes (compBytes c) \<and> compIndex c < length (orderedBuffers st)"
    using perm by simp
  have l1: "length (orderedBuffers (completeAll cs now st)) = n"
    using completeAll_length [OF ok1] fresh by simp
  have l2: "length (orderedBuffers (completeAll cs' now' st)) = n"
    using completeAll_length [OF ok2] fresh by simp
  show "length (orderedBuffers (completeAll cs' now' st)) = length (orderedBuffers (completeAll cs now st))"
    using l1 l2 by simp
  fix i assume "i < length (orderedBuffers (completeAll cs' now' st))"
  then have i: "i < length (orderedBuffers st)" using l2 fresh by simp
  show "orderedBuffers (completeAll cs' now' st) ! i = orderedBuffers (completeAll cs now st) ! i"
  proof (cases "i \<in> compIndex ` set cs")
    case True
    then obtain c where c: "c \<in> set cs" "compIndex c = i" by auto
    have u: "\<forall>c' \<in> set cs. compIndex c' = i \<longrightarrow> compBytes c' = compBytes c"
      using distinct_index_unique [OF dist c(1)] c(2) by auto
    then have u': "\<forall>c' \<in> set cs'. compIndex c' = i \<longrightarrow> compBytes c' = compBytes c"
      using perm by simp
    show ?thesis
      using completeAll_slot [OF ok1 u i] completeAll_slot [OF ok2 u' i] perm by simp
  next
    case False
    have u: "\<forall>c' \<in> set cs. compIndex c' = i \<longrightarrow> compBytes c' = []"
      using False by auto
    then have u': "\<forall>c' \<in> set cs'. compIndex c' = i \<longrightarrow> compBytes c' = []"
      using perm by simp
    show ?thesis
      using completeAll_slot [OF ok1 u i] completeAll_slot [OF ok2 u' i] perm by simp
  qed
qed

lemma final_assemble:
  assumes ok: "\<forall>c \<in> set cs. okBytes (compBytes c) \<and> compIndex c < n"
    and dist: "distinct (map compIndex cs)"
    and fresh: "orderedBuffers st = replicate n None"
    and ne: "cs \<noteq> []"
  shows "assembleFinal (orderedBuffers (completeAll cs now st)) =
         Inr \<lparr>numberOfChannels = 1,
              length_b = sum_list (map length_b
                 (map the (filter (\<lambda>b. b \<noteq> None) (orderedBuffers (completeAll cs now st))))),
              sampleRate = 24000,
              channelData = [concat (map (\<lambda>b. channelData b ! 0)
                 (map the (filter (\<lambda>b. b \<noteq> None) (orderedBuffers (completeAll cs now st)))))]\<rparr>"
proof -
  define arr where "arr = orderedBuffers (completeAll cs now st)"
  define valid where "valid = filter (\<lambda>b. b \<noteq> None) arr"
  define bs where "bs = map the valid"
  note slots = final_slots [OF ok dist fresh, where now = now, folded arr_def]
  have chunk: "\<exists>raw. b = chunkBuffer raw" if sb: "Some b \<in> set arr" for b
  proof -
    obtain i where "i < length arr" "arr ! i = Some b"
      using sb by (auto simp: in_set_conv_nth)
    then have i: "i < n" "arr ! i = Some b"
      using slots(1) by simp_all
    then have "i \<in> compIndex ` set cs" using slots(3) [of i] by auto
    then obtain c where "c \<in> set cs" "compIndex c = i" by auto
    then show ?thesis using slots(2) [of c] i by auto
  qed
  obtain c where c: "c \<in> set cs" using ne by (cases cs) auto
  then have "compIndex c < n" using ok by blast
  then have "Some (chunkBuffer (compBytes c)) \<in> set arr"
    using slots(2) [OF c] slots(1) by (metis nth_mem)
  then have vne: "valid \<noteq> []" by (auto simp: valid_def filter_empty_conv)
  have props: "wfAudioBuffer b \<and> numberOfChannels b = 1 \<and> 0 < length_b b \<and> sampleRate b = 24000"
    if "b \<in> set bs" for b
  proof -
    have "Some b \<in> set arr" using that by (auto simp: bs_def valid_def)
    then obtain raw where "b = chunkBuffer raw" using chunk by blast
    then show ?thesis using chunkBuffer_wf [of raw] chunkBuffer_rate [of raw] by simp
  qed
  have vb: "validBuffers_of valid = bs"
    unfolding valid_def bs_def
    by (rule validBuffers_of_filter) (use chunk chunkBuffer_wf(3) in auto)
  obtain b0 rest where bs: "bs = b0 # rest" using vne by (cases bs) (auto simp: bs_def)
  have b0: "numberOfChannels b0 = 1" "sampleRate b0 = 24000"
    using props [of b0] by (simp_all add: bs)
  have "concatenateAudioBuffers valid =
         Inr \<lparr>numberOfChannels = numberOfChannels b0,
              length_b = sum_list (map length_b (b0 # rest)),
              sampleRate = sampleRate b0,
              channelData = map (\<lambda>c. concat (map (\<lambda>x. channelData x ! c) (b0 # rest)))
                              [0..<numberOfChannels b0]\<rparr>"
  proof (rule concatenate_valid)
    show "validBuffers_of valid = b0 # rest" using vb bs by simp
    show "\<forall>x \<in> set (b0 # rest). wfAudioBuffer x \<and> numberOfChannels x = numberOfChannels b0"
      using props b0 unfolding bs by simp
  qed
  then have "concatenateAudioBuffers valid =
         Inr \<lparr>numberOfChannels = 1, length_b = sum_list (map length_b bs), sampleRate = 24000,
              channelData = [concat (map (\<lambda>b. channelData b ! 0) bs)]\<rparr>"
    unfolding b0 bs [symmetric] by simp
  then have cc: "concatenateAudioBuffers valid =
         Inr \<lparr>numberOfChannels = 1, length_b = sum_list (map length_b bs), sampleRate = 24000,
              channelData = [concat (map (\<lambda>b. channelData b ! 0) bs)]\<rparr>" .
  have "assembleFinal arr =
         Inr \<lparr>numberOfChannels = 1, length_b = sum_list (map length_b bs), sampleRate = 24000,
              channelData = [concat (map (\<lambda>b. channelData b ! 0) bs)]\<rparr>"
  proof -
    have "assembleFinal arr =
          (if length valid = 0 then Inl NoAudioGenerated else concatenateAudioBuffers valid)"
      unfolding assembleFinal_def Let_def valid_def ..
    then show ?thesis using vne cc by simp
  qed
  then show ?thesis
    unfolding bs_def valid_def arr_def .
qed

text \<open>
  Claim C1: let \<open>cs\<close> be the successful completions of a run (each with a non-empty response
  of an even number of bytes, for jobs with distinct indices below \<open>n\<close>), arriving in any
  order, on a fresh array of \<open>n\<close> slots. Then the chunk of every completion is stored at
  the slot of its job index, every other slot stays empty, the array is the same for every
  other order of arrival \<open>cs'\<close>, and the final track is the concatenation of the samples of
  the non-empty slots in ascending slot order.
\<close>

theorem final_track_in_index_order:
  assumes "\<forall>c \<in> set cs. compBytes c \<noteq> [] \<and> even (length (compBytes c)) \<and> compIndex c < n"
    and "distinct (map compIndex cs)"
    and "orderedBuffers st = replicate n None"
    and "set cs' = set cs"
  shows "(\<forall>c \<in> set cs. \<exists>chunk. combinedChunk (compBytes c) = Inr chunk \<and>
            orderedBuffers (completeAll cs now st) ! compIndex c = Some chunk) \<and>
         (\<forall>i < n. i \<notin> compIndex ` set cs \<longrightarrow> orderedBuffers (completeAll cs now st) ! i = None) \<and>
         orderedBuffers (completeAll cs' now' st) = orderedBuffers (completeAll cs now st) \<and>
         (cs \<noteq> [] \<longrightarrow>
            assembleFinal (orderedBuffers (completeAll cs now st)) =
              Inr \<lparr>numberOfChannels = 1,
                   length_b = sum_list (map length_b
                      (map the (filter (\<lambda>b. b \<noteq> None) (orderedBuffers (completeAll cs now st))))),
                   sampleRate = 24000,
                   channelData = [concat (map (\<lambda>b. channelData b ! 0)
                      (map the (filter (\<lambda>b. b \<noteq> None) (orderedBuffers (completeAll cs now st)))))]\<rparr>)"
proof -
  have ok: "\<forall>c \<in> set cs. okBytes (compBytes c) \<and> compIndex c < n"
    using assms(1) by (simp add: okBytes_def)
  note slots = final_slots [OF ok assms(2,3), where now = now]
  have 1: "\<forall>c \<in> set cs. \<exists>chunk. combinedChunk (compBytes c) = Inr chunk \<and>
            orderedBuffers (completeAll cs now st) ! compIndex c = Some chunk"
  proof
    fix c assume c: "c \<in> set cs"
    then have "combinedChunk (compBytes c) = Inr (chunkBuffer (compBytes c))"
      using ok by (simp add: combinedChunk_chunkBuffer)
    then show "\<exists>chunk. combinedChunk (compBytes c) = Inr chunk \<and>
            orderedBuffers (completeAll cs now st) ! compIndex c = Some chunk"
      using slots(2) [OF c] by blast
  qed
  have 2: "\<forall>i < n. i \<notin> compIndex ` set cs \<longrightarrow> orderedBuffers (completeAll cs now st) ! i = None"
    using slots(3) by blast
  have 3: "orderedBuffers (completeAll cs' now' st) = orderedBuffers (completeAll cs now st)"
    using ok assms(2,3,4) by (rule final_order_independent)
  have 4: "cs \<noteq> [] \<longrightarrow>
            assembleFinal (orderedBuffers (completeAll cs now st)) =
              Inr \<lparr>numberOfChannels = 1,
                   length_b = sum_list (map length_b
                      (map the (filter (\<lambda>b. b \<noteq> None) (orderedBuffers (completeAll cs now st))))),
                   sampleRate = 24000,
                   channelData = [concat (map (\<lambda>b. channelData b ! 0)
                      (map the (filter (\<lambda>b. b \<noteq> None) (orderedBuffers (completeAll cs now st)))))]\<rparr>"
    using final_assemble [OF ok assms(2,3)] by blast
  show ?thesis using 1 2 3 4 by (intro conjI)
qed

theorem final_track_in_index_order_witness:
  "orderedBuffers (completeAll byArrival 7 (initGenState fiveLineScript singleKeyPool)) =
   orderedBuffers (completeAll byIndex 9 (initGenState fiveLineScript singleKeyPool)) \<and>
   (\<exists>chunk. combinedChunk [0, 32] = Inr chunk \<and>
      orderedBuffers (completeAll byArrival 7 (initGenState fiveLineScript singleKeyPool)) ! 0 = Some chunk) \<and>
   (\<exists>chunk. combinedChunk [0, 64] = Inr chunk \<and>
      orderedBuffers (completeAll byArrival 7 (initGenState fiveLineScript singleKeyPool)) ! 2 = Some chunk) \<and>
   orderedBuffers (completeAll byArrival 7 (initGenState fiveLineScript singleKeyPool)) ! 3 = None"
proof -
  let ?st = "initGenState fiveLineScript singleKeyPool"
  have h1: "\<forall>c \<in> set byIndex. compBytes c \<noteq> [] \<and> even (length (compBytes c)) \<and> compIndex c < 5"
    by (simp add: byIndex_def)
  have h2: "distinct (map compIndex byIndex)"
    by (simp add: byIndex_def)
  have h3: "orderedBuffers ?st = replicate 5 None"
    by (simp add: initGenState_def optimizeScript_fiveLineScript length_fiveLineScript Let_def)
  have h4: "set byArrival = set byIndex"
    by (auto simp: byArrival_def byIndex_def)
  note t = final_track_in_index_order [OF h1 h2 h3 h4, of 9 7]
  have eq: "orderedBuffers (completeAll byArrival 7 ?st) = orderedBuffers (completeAll byIndex 9 ?st)"
    using t by blast
  have c0: "((\<lparr>speaker = ''A'', text_s = ''one''\<rparr>, 0), Key ''key-aaaaaaaaaa'', [0, 32]) \<in> set byIndex"
    and c2: "((\<lparr>speaker = ''A'', text_s = ''three''\<rparr>, 2), Key ''key-aaaaaaaaaa'', [0, 64]) \<in> set byIndex"
    by (simp_all add: byIndex_def)
  have all: "\<forall>c \<in> set byIndex. \<exists>chunk. combinedChunk (compBytes c) = Inr chunk \<and>
            orderedBuffers (completeAll byIndex 9 ?st) ! compIndex c = Some chunk"
    using t by blast
  have s0: "\<exists>chunk. combinedChunk [0, 32] = Inr chunk \<and>
      orderedBuffers (completeAll byIndex 9 ?st) ! 0 = Some chunk"
    using all [rule_format, OF c0] by simp
  have s2: "\<exists>chunk. combinedChunk [0, 64] = Inr chunk \<and>
      orderedBuffers (completeAll byIndex 9 ?st) ! 2 = Some chunk"
    using all [rule_format, OF c2] by simp
  have "3 \<notin> compIndex ` set byIndex"
    by (simp add: byIndex_def)
  moreover have "\<forall>i < 5. i \<notin> compIndex ` set byIndex \<longrightarrow> orderedBuffers (completeAll byIndex 9 ?st) ! i = None"
    using t by blast
  ultimately have s3: "orderedBuffers (completeAll byIndex 9 ?st) ! 3 = None"
    by simp
  show ?thesis
    unfolding eq using s0 s2 s3 by (intro conjI) simp_all
qed

text \<open>
  Claim C9: given no valid chunk (an empty array, or only \<^verbatim>\<open>null\<close> entries and buffers of
  length 0), \<^verbatim>\<open>concatenateAudioBuffers\<close> does not fail: it returns the buffer of
  \<^verbatim>\<open>createBuffer(1, 1, 24000)\<close>, one silent frame on one channel, the smallest buffer the Web
  Audio API can create. The buffer is well formed, and \<^verbatim>\<open>bufferToWav\<close> encodes it into a file of
  46 bytes.
\<close>

theorem concatenate_no_valid_chunk:
  assumes "validBuffers_of buffers = []"
  shows "concatenateAudioBuffers buffers =
           Inr \<lparr>numberOfChannels = 1, length_b = 1, sampleRate = 24000, channelData = [[0]]\<rparr> \<and>
         wfAudioBuffer \<lparr>numberOfChannels = 1, length_b = 1, sampleRate = 24000, channelData = [[0]]\<rparr> \<and>
         (\<exists>bytes. bufferToWav \<lparr>numberOfChannels = 1, length_b = 1, sampleRate = 24000, channelData = [[0]]\<rparr>
                    = Inr bytes \<and> length bytes = 46)"
proof -
  let ?b = "\<lparr>numberOfChannels = 1, length_b = 1, sampleRate = 24000, channelData = [[0::real]]\<rparr>"
  have cr: "createBuffer 1 1 24000 = Inr ?b"
    by (simp add: createBuffer_def)
  have 1: "concatenateAudioBuffers buffers = Inr ?b"
    using assms cr by (simp add: concatenateAudioBuffers_def Let_def)
  have 2: "wfAudioBuffer ?b"
    by (simp add: wfAudioBuffer_def)
  have "bufferToWav ?b \<noteq> Inl IndexSizeError"
    by (simp add: bufferToWav_def Let_def)
  then obtain bytes where b: "bufferToWav ?b = Inr bytes"
    by (auto simp: bufferToWav_def Let_def split: if_splits)
  then have "length bytes = 46"
    using bufferToWav_length [OF b] by simp
  then show ?thesis using 1 2 b by blast
qed

theorem concatenate_no_valid_chunk_witness:
  "validBuffers_of [None, Some \<lparr>numberOfChannels = 1, length_b = 0, sampleRate = 24000, channelData = [[]]\<rparr>] = [] \<and>
   concatenateAudioBuffers [None, Some \<lparr>numberOfChannels = 1, length_b = 0, sampleRate = 24000, channelData = [[]]\<rparr>] =
     Inr \<lparr>numberOfChannels = 1, length_b = 1, sampleRate = 24000, channelData = [[0]]\<rparr> \<and>
   validBuffers_of [] = [] \<and>
   concatenateAudioBuffers [] =
     Inr \<lparr>numberOfChannels = 1, length_b = 1, sampleRate = 24000, channelData = [[0]]\<rparr>"
proof -
  have h1: "validBuffers_of [None, Some \<lparr>numberOfChannels = 1, length_b = 0, sampleRate = 24000, channelData = [[]]\<rparr>] = []"
    by (simp add: validBuffers_of_def)
  have h2: "validBuffers_of [] = []"
    by (simp add: validBuffers_of_def)
  show ?thesis
    using concatenate_no_valid_chunk [OF h1] concatenate_no_valid_chunk [OF h2] h1 h2 by blast
qed

text \<open>
  Claim C5 at a buffer of one frame, one channel, 24000 Hz. The file has 46 bytes: 44 of
  header and 2 of samples. The header holds the channel count 1, the sample rate 24000 and
  the RIFF chunk size 38, but the data chunk length reads 42 instead of 2, because
  \<^verbatim>\<open>length - pos - 4\<close> is computed while \<^verbatim>\<open>pos\<close> is 0. A reader that follows the header finds
  \<open>42 / 2 = 21\<close> frames; \<^verbatim>\<open>decodeAudioData\<close> applied to the whole file finds 23.
\<close>

theorem bufferToWav_data_length:
  "(case bufferToWav \<lparr>numberOfChannels = 1, length_b = 1, sampleRate = 24000, channelData = [[0]]\<rparr> of
      Inl e \<Rightarrow> False
    | Inr bytes \<Rightarrow>
        length bytes = 46 \<and> wavChannels bytes = 1 \<and> wavSampleRate bytes = 24000 \<and>
        getUint32 bytes 4 = 38 \<and> getUint32 bytes 40 = 42 \<and> wavFrames bytes = 21 \<and>
        (case decodeAudioData bytes 24000 1 of Inl e \<Rightarrow> False | Inr decoded \<Rightarrow> length_b decoded = 23))"
proof -
  let ?b = "\<lparr>numberOfChannels = 1, length_b = 1, sampleRate = 24000, channelData = [[0::real]]\<rparr>"
  obtain bytes where b: "bufferToWav ?b = Inr bytes"
    by (auto simp: bufferToWav_def Let_def split: if_splits)
  have len: "length bytes = 46"
    using bufferToWav_length [OF b] by simp
  note f = bufferToWav_fields [OF b]
  have fr: "wavFrames bytes = 21"
    using f(4,5) by (simp add: wavFrames_def)
  have ne: "bytes \<noteq> []" "even (length bytes)"
    using len by auto
  have "decodeAudioData bytes 24000 1 =
         Inr \<lparr>numberOfChannels = 1, length_b = length bytes div 2, sampleRate = 24000,
              channelData = [map (\<lambda>v. real_of_int v / 32768) (int16Array bytes)]\<rparr>"
    using ne(2,1) by (rule decodeAudioData_mono)
  then have d: "case decodeAudioData bytes 24000 1 of Inl e \<Rightarrow> False | Inr decoded \<Rightarrow> length_b decoded = 23"
    using len by simp
  have f1: "wavChannels bytes = 1" "wavSampleRate bytes = 24000" "getUint32 bytes 4 = 38"
    "getUint32 bytes 40 = 42"
    using f by simp_all
  show ?thesis
    unfolding b sum.case using len f1 fr d by (intro conjI)
qed

section \<open>Failures and late completions\<close>


lemma twoKeyPool_reserve_first: "reserveKey twoKeyPool 1 =
   (Some (Key ''key-aaaaaaaaaa''),
    twoKeyPool\<lparr>requestCounts := [Key ''key-aaaaaaaaaa'' \<mapsto> 1, Key ''key-bbbbbbbbbb'' \<mapsto> 0]\<rparr>)"
  by (simp add: twoKeyPool_def km_defs fun_upd_twist)

lemma twoKeyPool_reserve_second: "reserveKey (twoKeyPool\<lparr>requestCounts := [Key ''key-aaaaaaaaaa'' \<mapsto> 1, Key ''key-bbbbbbbbbb'' \<mapsto> 0]\<rparr>) 1 =
   (Some (Key ''key-aaaaaaaaaa''),
    twoKeyPool\<lparr>requestCounts := [Key ''key-aaaaaaaaaa'' \<mapsto> 2, Key ''key-bbbbbbbbbb'' \<mapsto> 0]\<rparr>)"
  by (simp add: twoKeyPool_def km_defs fun_upd_twist numeral_2_eq_2)

lemma twoKeyPool_jail_first: "jailCurrentKey (twoKeyPool\<lparr>requestCounts := [Key ''key-aaaaaaaaaa'' \<mapsto> 2, Key ''key-bbbbbbbbbb'' \<mapsto> 0]\<rparr>) 10 60000 =
    twoKeyPool\<lparr>requestCounts := [Key ''key-aaaaaaaaaa'' \<mapsto> 2, Key ''key-bbbbbbbbbb'' \<mapsto> 0],
               jailedUntil := [Key ''key-aaaaaaaaaa'' \<mapsto> 60010], currentIndex := 1\<rparr>"
  by (simp add: twoKeyPool_def km_defs)

lemma twoKeyPool_jail_second: "jailCurrentKey (twoKeyPool\<lparr>requestCounts := [Key ''key-aaaaaaaaaa'' \<mapsto> 2, Key ''key-bbbbbbbbbb'' \<mapsto> 0],
               jailedUntil := [Key ''key-aaaaaaaaaa'' \<mapsto> 60010], currentIndex := 1\<rparr>) 11 60000 =
    twoKeyPool\<lparr>requestCounts := [Key ''key-aaaaaaaaaa'' \<mapsto> 2, Key ''key-bbbbbbbbbb'' \<mapsto> 0],
               jailedUntil := [Key ''key-aaaaaaaaaa'' \<mapsto> 60010, Key ''key-bbbbbbbbbb'' \<mapsto> 60011], currentIndex := 0\<rparr>"
  by (simp add: twoKeyPool_def km_defs)


lemma settle_rate_limit:
  assumes "n < length (pending st)" "pending st ! n = (jb, apiKey, True)" "isRateLimit status message"
  shows "settle n (ApiError status message) now st =
         st\<lparr>keyManager := jailCurrentKey (keyManager st) now 60000,
            queue := jb # queue st,
            pending := take n (pending st) @ drop (Suc n) (pending st),
            activeWorkers := activeWorkers st - 1\<rparr>"
  using assms by (simp add: settle_def processItemResume_def Let_def)

lemma settle_audio:
  assumes "n < length (pending st)" "pending st ! n = (jb, apiKey, True)" "okBytes raw"
  shows "settle n (AudioData raw) now st =
         st\<lparr>orderedBuffers := storeAt (snd jb) (chunkBuffer raw) (orderedBuffers st),
            completedCount := completedCount st + 1,
            pending := take n (pending st) @ drop (Suc n) (pending st),
            activeWorkers := activeWorkers st - 1\<rparr>"
  using assms by (simp add: settle_def resume_store Let_def)

lemma initGenState_twoLineScript: "initGenState twoLineScript km =
   \<lparr>isMounted = True,
    queue = [(\<lparr>speaker = ''A'', text_s = ''one''\<rparr>, 0), (\<lparr>speaker = ''B'', text_s = ''two''\<rparr>, 1)],
    activeWorkers = 0, pending = [], orderedBuffers = [None, None], completedCount = 0,
    keyManager = km, phase = NotStarted\<rparr>"
  by (simp add: initGenState_def optimizeScript_def twoLineScript_def MAX_CHAR_LIMIT_def Let_def upt_conv_Cons
      numeral_2_eq_2)

lemma processItemResume_ignores_isMounted:
  "processItemResume jb apiKey res now (st\<lparr>isMounted := m\<rparr>) =
   (processItemResume jb apiKey res now st)\<lparr>isMounted := m\<rparr>"
  by (simp add: processItemResume_def split: api_result.splits sum.splits)

text \<open>
  Claim C3 on the run \<open>rateLimitedTwice\<close>: both jobs were given the first key. The first
  failure suspends the first key and moves the round-robin index to the second key; the
  second failure, of a call that also used the first key, calls \<^verbatim>\<open>jailCurrentKey\<close> and
  suspends the second key, which no call has used. Both jobs are back in the queue, the
  later failure in front.
\<close>

theorem rate_limit_jails_current_key:
  "map (\<lambda>p. fst (snd p)) (pending (run 3 [Step 0, Step 1, Step 1] (initGenState twoLineScript twoKeyPool)))
     = [Key ''key-aaaaaaaaaa'', Key ''key-aaaaaaaaaa''] \<and>
   jailedUntil (keyManager (run 3 rateLimitedTwice (initGenState twoLineScript twoKeyPool)))
     = [Key ''key-aaaaaaaaaa'' \<mapsto> 60010, Key ''key-bbbbbbbbbb'' \<mapsto> 60011] \<and>
   requestCounts (keyManager (run 3 rateLimitedTwice (initGenState twoLineScript twoKeyPool)))
     = [Key ''key-aaaaaaaaaa'' \<mapsto> 2, Key ''key-bbbbbbbbbb'' \<mapsto> 0] \<and>
   map snd (queue (run 3 rateLimitedTwice (initGenState twoLineScript twoKeyPool))) = [1, 0]"
proof -
  let ?j0 = "(\<lparr>speaker = ''A'', text_s = ''one''\<rparr>, 0::nat)"
  let ?j1 = "(\<lparr>speaker = ''B'', text_s = ''two''\<rparr>, 1::nat)"
  let ?a = "Key ''key-aaaaaaaaaa''"
  let ?km1 = "twoKeyPool\<lparr>requestCounts := [Key ''key-aaaaaaaaaa'' \<mapsto> 1, Key ''key-bbbbbbbbbb'' \<mapsto> 0]\<rparr>"
  let ?km2 = "twoKeyPool\<lparr>requestCounts := [Key ''key-aaaaaaaaaa'' \<mapsto> 2, Key ''key-bbbbbbbbbb'' \<mapsto> 0]\<rparr>"
  let ?km3 = "twoKeyPool\<lparr>requestCounts := [Key ''key-aaaaaaaaaa'' \<mapsto> 2, Key ''key-bbbbbbbbbb'' \<mapsto> 0],
               jailedUntil := [Key ''key-aaaaaaaaaa'' \<mapsto> 60010], currentIndex := 1\<rparr>"
  let ?km4 = "twoKeyPool\<lparr>requestCounts := [Key ''key-aaaaaaaaaa'' \<mapsto> 2, Key ''key-bbbbbbbbbb'' \<mapsto> 0],
               jailedUntil := [Key ''key-aaaaaaaaaa'' \<mapsto> 60010, Key ''key-bbbbbbbbbb'' \<mapsto> 60011], currentIndex := 0\<rparr>"
  define s0 where "s0 = initGenState twoLineScript twoKeyPool"
  define s1 where "s1 = s0\<lparr>phase := MainLoop\<rparr>"
  define s2 where "s2 = s1\<lparr>keyManager := ?km1, queue := [?j1], activeWorkers := activeWorkers s1 + 1,
                         pending := pending s1 @ [(?j0, ?a, isMounted s1)]\<rparr>"
  define s3 where "s3 = s2\<lparr>keyManager := ?km2, queue := [], activeWorkers := activeWorkers s2 + 1,
                         pending := pending s2 @ [(?j1, ?a, isMounted s2)]\<rparr>"
  define s3e where "s3e = s3\<lparr>phase := Stragglers\<rparr>"
  define s4 where "s4 = s3e\<lparr>keyManager := jailCurrentKey (keyManager s3e) 10 60000,
                         queue := ?j0 # queue s3e,
                         pending := take 0 (pending s3e) @ drop (Suc 0) (pending s3e),
                         activeWorkers := activeWorkers s3e - 1\<rparr>"
  define s5 where "s5 = s4\<lparr>keyManager := jailCurrentKey (keyManager s4) 11 60000,
                         queue := ?j1 # queue s4,
                         pending := take 0 (pending s4) @ drop (Suc 0) (pending s4),
                         activeWorkers := activeWorkers s4 - 1\<rparr>"
  have q0: "phase s0 = NotStarted" "isMounted s0" "queue s0 = [?j0, ?j1]" "activeWorkers s0 = 0"
    "keyManager s0 = twoKeyPool" "pending s0 = []"
    by (simp_all add: s0_def initGenState_twoLineScript)
  have e1: "processQueueStep 3 0 s0 = s1"
    unfolding s1_def using q0(1,2) by (rule step_enter)
  have q1: "phase s1 = MainLoop" "isMounted s1" "queue s1 = ?j0 # [?j1]" "activeWorkers s1 = 0"
    "keyManager s1 = twoKeyPool" "pending s1 = []"
    using q0 by (simp_all add: s1_def)
  have r1: "reserveKey (keyManager s1) 1 = (Some ?a, ?km1)"
    unfolding q1(5) by (rule twoKeyPool_reserve_first)
  have e2: "processQueueStep 3 1 s1 = s2"
    unfolding s2_def by (rule step_dispatch [OF q1(1) q1(3) _ r1]) (simp_all add: q1(4))
  have q2: "phase s2 = MainLoop" "isMounted s2" "queue s2 = ?j1 # []" "activeWorkers s2 = 1"
    "keyManager s2 = ?km1" "pending s2 = [(?j0, ?a, True)]"
    using q1 by (simp_all add: s2_def)
  have r2: "reserveKey (keyManager s2) 1 = (Some ?a, ?km2)"
    unfolding q2(5) by (rule twoKeyPool_reserve_second)
  have e3: "processQueueStep 3 1 s2 = s3"
    unfolding s3_def by (rule step_dispatch [OF q2(1) q2(3) _ r2]) (simp_all add: q2(4))
  have q3: "queue s3 = []" "keyManager s3 = ?km2" "pending s3 = [(?j0, ?a, True), (?j1, ?a, True)]"
    "phase s3 = MainLoop"
    using q2 by (simp_all add: s3_def)
  have e3e: "processQueueStep 3 1 s3 = s3e"
    unfolding s3e_def using q3(4,1) by (rule step_exit)
  have q3e: "queue s3e = []" "keyManager s3e = ?km2" "pending s3e = [(?j0, ?a, True), (?j1, ?a, True)]"
    using q3 by (simp_all add: s3e_def)
  have rl: "isRateLimit (Some 429) None"
    by (simp add: isRateLimit_def)
  have e4: "settle 0 (ApiError (Some 429) None) 10 s3e = s4"
    unfolding s4_def by (rule settle_rate_limit [OF _ _ rl]) (simp_all add: q3e)
  have q4: "queue s4 = [?j0]" "keyManager s4 = ?km3" "pending s4 = [(?j1, ?a, True)]"
    using q3e by (simp_all add: s4_def twoKeyPool_jail_first)
  have e5: "settle 0 (ApiError (Some 429) None) 11 s4 = s5"
    unfolding s5_def by (rule settle_rate_limit [OF _ _ rl]) (simp_all add: q4)
  have k5: "keyManager s5 = jailCurrentKey (keyManager s4) 11 60000"
    by (simp add: s5_def)
  have q5: "queue s5 = [?j1, ?j0]" "keyManager s5 = ?km4"
  proof -
    show "queue s5 = [?j1, ?j0]" using q4(1) by (simp add: s5_def)
    show "keyManager s5 = ?km4" unfolding k5 q4(2) by (rule twoKeyPool_jail_second)
  qed
  have a: "run 3 [Step 0, Step 1, Step 1] s0 = s3"
    by (simp add: run_def e1 e2 e3)
  have b: "run 3 rateLimitedTwice s0 = s5"
    by (simp add: run_def rateLimitedTwice_def e1 e2 e3 e3e e4 e5)
  show ?thesis
    unfolding s0_def [symmetric] a b using q3 q5 by simp
qed

text \<open>
  Claim C4 on the run \<open>lateCompletion\<close>: both jobs are in flight when the component is
  unmounted. When the synthesis call of the first job returns after that, the liveness flag
  is down, and the continuation of \<^verbatim>\<open>processItem\<close> still stores the chunk in
  \<^verbatim>\<open>orderedBuffers\<close> and increments \<^verbatim>\<open>completedCount\<close>.
\<close>

theorem completion_after_unmount_writes:
  "isMounted (run 2 [Step 0, Step 1, Step 1, Step 1, Unmount] (initGenState twoLineScript singleKeyPool)) = False \<and>
   orderedBuffers (run 2 [Step 0, Step 1, Step 1, Step 1, Unmount] (initGenState twoLineScript singleKeyPool))
     = [None, None] \<and>
   completedCount (run 2 [Step 0, Step 1, Step 1, Step 1, Unmount] (initGenState twoLineScript singleKeyPool)) = 0 \<and>
   isMounted (run 2 lateCompletion (initGenState twoLineScript singleKeyPool)) = False \<and>
   orderedBuffers (run 2 lateCompletion (initGenState twoLineScript singleKeyPool)) ! 0 \<noteq> None \<and>
   completedCount (run 2 lateCompletion (initGenState twoLineScript singleKeyPool)) = 1"
proof -
  let ?j0 = "(\<lparr>speaker = ''A'', text_s = ''one''\<rparr>, 0::nat)"
  let ?j1 = "(\<lparr>speaker = ''B'', text_s = ''two''\<rparr>, 1::nat)"
  let ?a = "Key ''key-aaaaaaaaaa''"
  let ?km1 = "singleKeyPool\<lparr>requestCounts := [Key ''key-aaaaaaaaaa'' \<mapsto> 1]\<rparr>"
  let ?km2 = "singleKeyPool\<lparr>requestCounts := [Key ''key-aaaaaaaaaa'' \<mapsto> 2]\<rparr>"
  define s0 where "s0 = initGenState twoLineScript singleKeyPool"
  define s1 where "s1 = s0\<lparr>phase := MainLoop\<rparr>"
  define s2 where "s2 = s1\<lparr>keyManager := ?km1, queue := [?j1], activeWorkers := activeWorkers s1 + 1,
                         pending := pending s1 @ [(?j0, ?a, isMounted s1)]\<rparr>"
  define s3 where "s3 = s2\<lparr>keyManager := ?km2, queue := [], activeWorkers := activeWorkers s2 + 1,
                         pending := pending s2 @ [(?j1, ?a, isMounted s2)]\<rparr>"
  define s4 where "s4 = s3\<lparr>phase := Stragglers\<rparr>"
  define s5 where "s5 = s4\<lparr>isMounted := False\<rparr>"
  define s6 where "s6 = s5\<lparr>orderedBuffers := storeAt (snd ?j0) (chunkBuffer [0, 64]) (orderedBuffers s5),
                         completedCount := completedCount s5 + 1,
                         pending := take 0 (pending s5) @ drop (Suc 0) (pending s5),
                         activeWorkers := activeWorkers s5 - 1\<rparr>"
  have q0: "phase s0 = NotStarted" "isMounted s0" "queue s0 = [?j0, ?j1]" "activeWorkers s0 = 0"
    "keyManager s0 = singleKeyPool" "pending s0 = []" "orderedBuffers s0 = [None, None]"
    "completedCount s0 = 0"
    by (simp_all add: s0_def initGenState_twoLineScript)
  have e1: "processQueueStep 2 0 s0 = s1"
    unfolding s1_def using q0(1,2) by (rule step_enter)
  have q1: "phase s1 = MainLoop" "isMounted s1" "queue s1 = ?j0 # [?j1]" "activeWorkers s1 = 0"
    "keyManager s1 = singleKeyPool" "pending s1 = []" "orderedBuffers s1 = [None, None]"
    "completedCount s1 = 0"
    using q0 by (simp_all add: s1_def)
  have r1: "reserveKey (keyManager s1) 1 = (Some ?a, ?km1)"
    unfolding q1(5) by (rule singleKeyPool_reserve_first)
  have e2: "processQueueStep 2 1 s1 = s2"
    unfolding s2_def by (rule step_dispatch [OF q1(1) q1(3) _ r1]) (simp_all add: q1(4))
  have q2: "phase s2 = MainLoop" "isMounted s2" "queue s2 = ?j1 # []" "activeWorkers s2 = 1"
    "keyManager s2 = ?km1" "pending s2 = [(?j0, ?a, True)]" "orderedBuffers s2 = [None, None]"
    "completedCount s2 = 0"
    using q1 by (simp_all add: s2_def)
  have r2: "reserveKey (keyManager s2) 1 = (Some ?a, ?km2)"
    unfolding q2(5) by (rule singleKeyPool_reserve_second)
  have e3: "processQueueStep 2 1 s2 = s3"
    unfolding s3_def by (rule step_dispatch [OF q2(1) q2(3) _ r2]) (simp_all add: q2(4))
  have q3: "phase s3 = MainLoop" "queue s3 = []" "pending s3 = [(?j0, ?a, True), (?j1, ?a, True)]"
    "orderedBuffers s3 = [None, None]" "completedCount s3 = 0"
    using q2 by (simp_all add: s3_def)
  have e4: "processQueueStep 2 1 s3 = s4"
    unfolding s4_def using q3(1,2) by (rule step_exit)
  have e5: "runEvent 2 Unmount s4 = s5"
    by (simp add: s5_def)
  have q5: "isMounted s5 = False" "pending s5 = [(?j0, ?a, True), (?j1, ?a, True)]"
    "orderedBuffers s5 = [None, None]" "completedCount s5 = 0"
    using q3 by (simp_all add: s5_def s4_def)
  have ok: "okBytes [0, 64]"
    by (simp add: okBytes_def)
  have e6: "settle 0 (AudioData [0, 64]) 5 s5 = s6"
    unfolding s6_def by (rule settle_audio [OF _ _ ok]) (simp_all add: q5)
  have q6: "isMounted s6 = False" "orderedBuffers s6 ! 0 \<noteq> None" "completedCount s6 = 1"
    using q5 by (simp_all add: s6_def storeAt_def)
  have a: "run 2 [Step 0, Step 1, Step 1, Step 1, Unmount] s0 = s5"
    using e5 by (simp add: run_def e1 e2 e3 e4)
  have b: "run 2 lateCompletion s0 = s6"
    using e5 by (simp add: run_def lateCompletion_def e1 e2 e3 e4 e6)
  show ?thesis
    unfolding s0_def [symmetric] a b using q5 q6 by simp
qed

end
